theory Spec2Isabelle
  imports Complex_Main "HOL-Library.Multiset" "HOL-Library.Extended_Nat"
begin

section \<open>Data model of lattice-char-to-word\<close>

text \<open>
  Labels and state ids are the integers of the source (\<open>Arc::Label\<close>, \<open>Arc::StateId\<close>);
  label 0 is epsilon and state id \<open>-1\<close> is \<open>kNoStateId\<close>. The weight type is the template
  parameter \<open>Arc::Weight\<close>: it is used only through \<open>Times\<close>, \<open>Weight::One()\<close>,
  \<open>Weight::Zero()\<close> and comparison, which are passed as a record of operations.
\<close>

record 'w semiring =
  Times :: "'w \<Rightarrow> 'w \<Rightarrow> 'w"
  One :: 'w
  Zero :: 'w

datatype 'w arc = Arc (ilabel: int) (olabel: int) (weight: 'w) (nextstate: int)

record 'w fst_state =
  final :: 'w
  arcs :: "'w arc list"

text \<open>An automaton whose states are numbered \<open>0 .. n-1\<close> (the order of \<open>StateIterator\<close>).\<close>

record 'w fst =
  start :: int
  states :: "'w fst_state list"

definition valid_state :: "'w fst \<Rightarrow> int \<Rightarrow> bool" where
  "valid_state f s = (0 \<le> s \<and> s < int (length (states f)))"

text \<open>Reading a state that does not exist is undefined behaviour in the source: \<open>None\<close>.\<close>

definition state_at :: "'w fst \<Rightarrow> int \<Rightarrow> 'w fst_state option" where
  "state_at f s = (if valid_state f s then Some (states f ! nat s) else None)"

definition arcs_of :: "'w fst \<Rightarrow> int \<Rightarrow> 'w arc list" where
  "arcs_of f s = (case state_at f s of None \<Rightarrow> [] | Some st \<Rightarrow> arcs st)"

text \<open>\<open>MutableFst::AddArc(s, arc)\<close> and \<open>MutableFst::SetFinal(s, w)\<close>.\<close>

definition AddArc :: "'w fst \<Rightarrow> int \<Rightarrow> 'w arc \<Rightarrow> 'w fst option" where
  "AddArc f s a =
     (if valid_state f s
      then Some (f\<lparr>states := (states f)[nat s :=
                   (states f ! nat s)\<lparr>arcs := arcs (states f ! nat s) @ [a]\<rparr>]\<rparr>)
      else None)"

definition SetFinal :: "'w fst \<Rightarrow> int \<Rightarrow> 'w \<Rightarrow> 'w fst option" where
  "SetFinal f s w =
     (if valid_state f s
      then Some (f\<lparr>states := (states f)[nat s := (states f ! nat s)\<lparr>final := w\<rparr>]\<rparr>)
      else None)"

section \<open>The label-sequence interner\<close>

text \<open>
  \<open>std::unordered_map<std::vector<Label>, Label>\<close>, used only through \<open>insert\<close> and
  \<open>size\<close> by \<open>ExpandFst\<close>: an association list with distinct keys, in insertion order.
\<close>

type_synonym label_map = "(int list \<times> int) list"

text \<open>\<open>m->insert(make_pair(k, v)).first->second\<close>: the stored value of \<open>k\<close>, inserting
  \<open>v\<close> only when \<open>k\<close> is absent.\<close>

definition insert_map :: "label_map \<Rightarrow> int list \<Rightarrow> int \<Rightarrow> label_map \<times> int" where
  "insert_map m k v =
     (case map_of m k of
        Some v' \<Rightarrow> (m, v')
      | None \<Rightarrow> (m @ [(k, v)], v))"

text \<open>
  The id offered for a new sequence is \<open>m->size()\<close>, a \<open>size_t\<close> that the pair stores
  as a \<open>Label\<close> (\<open>int32\<close>): the size modulo \<open>2^32\<close>, read as a signed number.
\<close>

definition label_of_size :: "nat \<Rightarrow> int" where
  "label_of_size n = (int n + 2147483648) mod 4294967296 - 2147483648"

text \<open>\<open>m->insert(make_pair(seq, m->size())).first->second\<close> (lines 86-89 and 134-137).\<close>

definition intern :: "label_map \<Rightarrow> int list \<Rightarrow> label_map \<times> int" where
  "intern m seq = insert_map m seq (label_of_size (length m))"

text \<open>Lines 55-56: \<open>insert(make_pair(std::vector<Label>{}, 0))\<close>.\<close>

definition reserve_epsilon :: "label_map \<Rightarrow> label_map" where
  "reserve_epsilon m = fst (insert_map m [] 0)"

text \<open>\<open>label_map.clear()\<close> of the driver (line 304), followed by the reservation of
  lines 55-56 at the start of the next expansion.\<close>

definition clear :: "label_map \<Rightarrow> label_map" where
  "clear m = []"






section \<open>ExpandFst\<close>

text \<open>
  The two interner arguments of \<open>ExpandFst\<close> are pointers, and the driver passes the same
  map for both. The maps live in a store indexed by address, so that a call with
  \<open>ilabel_map = olabel_map\<close> updates one shared table.
\<close>

type_synonym heap = "nat \<Rightarrow> label_map"

text \<open>\<open>intern\<close> and the reservation of the empty sequence, through a pointer.\<close>

definition intern_at :: "heap \<Rightarrow> nat \<Rightarrow> int list \<Rightarrow> heap \<times> int" where
  "intern_at h p seq = (let (m, v) = intern (h p) seq in (h(p := m), v))"

definition reserve_epsilon_at :: "heap \<Rightarrow> nat \<Rightarrow> heap" where
  "reserve_epsilon_at h p = h(p := reserve_epsilon (h p))"

text \<open>
  The ways in which the program stops without a result: \<open>InvalidState\<close> when a state id
  that is no state of the automaton is read or written (undefined behaviour in the
  source), \<open>AssertionFailed\<close> when a \<open>KALDI_ASSERT\<close> fails.
\<close>

datatype fault = InvalidState | AssertionFailed

text \<open>The objects \<open>ExpandFst\<close> mutates: the output automaton and the interner store.\<close>

record 'w store =
  ofst :: "'w fst"
  heap :: heap

text \<open>\<open>SState\<close>: (q0, q1, accumulated weight, input labels, output labels).\<close>

type_synonym 'w sstate = "int \<times> int \<times> 'w \<times> int list \<times> int list"

record 'w config =
  stack :: "'w sstate list"
  store :: "'w store"

definition match_label :: "bool \<Rightarrow> 'w arc \<Rightarrow> int" where
  "match_label match_input a = (if match_input then ilabel a else olabel a)"

text \<open>\<open>if (l != 0) v.push_back(l)\<close>.\<close>

definition push_back_nonzero :: "int \<Rightarrow> int list \<Rightarrow> int list" where
  "push_back_nonzero l v = (if l \<noteq> 0 then v @ [l] else v)"

text \<open>
  \<open>std::unordered_set<StateId>\<close>: the distinct elements in insertion order. The order in
  which the set is iterated is left open by the language; it is a parameter \<open>iter\<close> of
  the model, a function of this insertion history.
\<close>

definition uset_insert :: "int list \<Rightarrow> int \<Rightarrow> int list" where
  "uset_insert xs x = (if x \<in> set xs then xs else xs @ [x])"

text \<open>
  The comparison \<open>new_length <= max_length\<close> is between a \<open>size_t\<close> and an \<open>int32\<close>:
  the \<open>int32\<close> is converted to the unsigned 64-bit type.
\<close>

definition size_t_of_int32 :: "int \<Rightarrow> nat" where
  "size_t_of_int32 i = nat (i mod 2 ^ 64)"

text \<open>Lines 77-94: the arcs of state \<open>s\<close> in the first pass.\<close>

fun delimiter_arcs ::
  "bool \<Rightarrow> int set \<Rightarrow> nat \<Rightarrow> nat \<Rightarrow> int \<Rightarrow> 'w arc list \<Rightarrow> 'w store \<times> int list
   \<Rightarrow> fault + 'w store \<times> int list" where
  "delimiter_arcs match_input delim ip op s [] (st, seeds) = Inr (st, seeds)"
| "delimiter_arcs match_input delim ip op s (a # as) (st, seeds) =
     (if match_label match_input a \<in> delim
      then (let (h1, ilab) = intern_at (heap st) ip (push_back_nonzero (ilabel a) []);
                (h2, olab) = intern_at h1 op (push_back_nonzero (olabel a) [])
            in case AddArc (ofst st) s (Arc ilab olab (weight a) (nextstate a)) of
                 None \<Rightarrow> Inl InvalidState
               | Some f \<Rightarrow>
                   delimiter_arcs match_input delim ip op s as
                     (\<lparr>ofst = f, heap = h2\<rparr>, uset_insert seeds (nextstate a)))
      else delimiter_arcs match_input delim ip op s as (st, seeds))"

text \<open>Lines 73-95: the first pass over the states, in state order.\<close>

fun copy_states ::
  "bool \<Rightarrow> int set \<Rightarrow> nat \<Rightarrow> nat \<Rightarrow> 'w fst \<Rightarrow> nat list \<Rightarrow> 'w store \<times> int list
   \<Rightarrow> fault + 'w store \<times> int list" where
  "copy_states match_input delim ip op ifst [] x = Inr x"
| "copy_states match_input delim ip op ifst (s # ss) (st, seeds) =
     (case SetFinal (ofst st) (int s) (final (states ifst ! s)) of
        None \<Rightarrow> Inl InvalidState
      | Some f \<Rightarrow>
          (case delimiter_arcs match_input delim ip op (int s) (arcs (states ifst ! s))
                  (st\<lparr>ofst := f\<rparr>, seeds) of
             Inl e \<Rightarrow> Inl e
           | Inr x \<Rightarrow> copy_states match_input delim ip op ifst ss x))"

text \<open>Lines 54-102: everything before the \<open>while\<close> loop. The stack is a list, top first.\<close>

definition expand_init ::
  "'w semiring \<Rightarrow> (int list \<Rightarrow> int list) \<Rightarrow> bool \<Rightarrow> 'w fst \<Rightarrow> int set \<Rightarrow> nat \<Rightarrow> nat \<Rightarrow> heap
   \<Rightarrow> fault + 'w config" where
  "expand_init W iter match_input ifst delim ip op h =
     (let h1 = reserve_epsilon_at h ip;
          h2 = reserve_epsilon_at h1 op;
          f0 = \<lparr>start = start ifst,
                states = replicate (length (states ifst)) \<lparr>final = Zero W, arcs = []\<rparr>\<rparr>;
          seeds0 = uset_insert [] (start ifst)
      in case copy_states match_input delim ip op ifst [0..<length (states ifst)]
                (\<lparr>ofst = f0, heap = h2\<rparr>, seeds0) of
           Inl e \<Rightarrow> Inl e
         | Inr (st, seeds) \<Rightarrow>
             Inr \<lparr>stack = rev (map (\<lambda>s. (s, s, One W, [], [])) (iter seeds)), store = st\<rparr>)"

text \<open>Lines 111-128: the arcs leaving \<open>q1\<close>; returns the stack and \<open>has_delim_arc\<close>.\<close>

fun scan_arcs ::
  "'w semiring \<Rightarrow> bool \<Rightarrow> int set \<Rightarrow> int \<Rightarrow> 'w sstate \<Rightarrow> 'w arc list \<Rightarrow> 'w sstate list \<Rightarrow> bool
   \<Rightarrow> 'w sstate list \<times> bool" where
  "scan_arcs W match_input delim max_length e [] S has_delim_arc = (S, has_delim_arc)"
| "scan_arcs W match_input delim max_length (q0, q1, w, ilbls, olbls) (a # as) S has_delim_arc =
     (if match_label match_input a \<notin> delim
      then (let cur_length = (if match_input then length ilbls else length olbls);
                new_length = cur_length + (if match_label match_input a = 0 then 0 else 1)
            in if new_length \<le> size_t_of_int32 max_length
               then scan_arcs W match_input delim max_length (q0, q1, w, ilbls, olbls) as
                      ((q0, nextstate a, Times W w (weight a),
                        push_back_nonzero (ilabel a) ilbls,
                        push_back_nonzero (olabel a) olbls) # S) has_delim_arc
               else scan_arcs W match_input delim max_length (q0, q1, w, ilbls, olbls) as
                      S has_delim_arc)
      else scan_arcs W match_input delim max_length (q0, q1, w, ilbls, olbls) as S True)"

text \<open>Lines 105-139: one iteration of the \<open>while\<close> loop, on a non-empty stack.\<close>

definition expand_step ::
  "'w semiring \<Rightarrow> bool \<Rightarrow> 'w fst \<Rightarrow> int set \<Rightarrow> int \<Rightarrow> nat \<Rightarrow> nat \<Rightarrow> 'w config
   \<Rightarrow> fault + 'w config" where
  "expand_step W match_input ifst delim max_length ip op c =
     (case stack c of
        [] \<Rightarrow> Inr c
      | (q0, q1, w, ilbls, olbls) # S \<Rightarrow>
          (case state_at ifst q1 of
             None \<Rightarrow> Inl InvalidState
           | Some st1 \<Rightarrow>
               (let (S', has_delim_arc) =
                      scan_arcs W match_input delim max_length (q0, q1, w, ilbls, olbls)
                        (arcs st1) S False
                in if q0 \<noteq> q1 \<and> (has_delim_arc \<or> final st1 \<noteq> Zero W)
                   then (let (h1, ilab) = intern_at (heap (store c)) ip ilbls;
                             (h2, olab) = intern_at h1 op olbls
                         in case AddArc (ofst (store c)) q0 (Arc ilab olab w q1) of
                              None \<Rightarrow> Inl InvalidState
                            | Some f \<Rightarrow> Inr \<lparr>stack = S', store = \<lparr>ofst = f, heap = h2\<rparr>\<rparr>)
                   else Inr \<lparr>stack = S', store = store c\<rparr>)))"

text \<open>At most \<open>k\<close> iterations of the \<open>while\<close> loop (line 104).\<close>

fun run_steps ::
  "'w semiring \<Rightarrow> bool \<Rightarrow> 'w fst \<Rightarrow> int set \<Rightarrow> int \<Rightarrow> nat \<Rightarrow> nat \<Rightarrow> nat \<Rightarrow> 'w config
   \<Rightarrow> fault + 'w config" where
  "run_steps W match_input ifst delim max_length ip op 0 c = Inr c"
| "run_steps W match_input ifst delim max_length ip op (Suc k) c =
     (if stack c = [] then Inr c
      else (case expand_step W match_input ifst delim max_length ip op c of
              Inl e \<Rightarrow> Inl e
            | Inr c' \<Rightarrow> run_steps W match_input ifst delim max_length ip op k c'))"

text \<open>The loop with fuel: \<open>None\<close> when the stack is not empty after \<open>fuel\<close> iterations.\<close>

definition expand_loop ::
  "'w semiring \<Rightarrow> bool \<Rightarrow> 'w fst \<Rightarrow> int set \<Rightarrow> int \<Rightarrow> nat \<Rightarrow> nat \<Rightarrow> nat \<Rightarrow> 'w config
   \<Rightarrow> (fault + 'w config) option" where
  "expand_loop W match_input ifst delim max_length ip op fuel c =
     (case run_steps W match_input ifst delim max_length ip op fuel c of
        Inl e \<Rightarrow> Some (Inl e)
      | Inr c' \<Rightarrow> if stack c' = [] then Some (Inr c') else None)"

text \<open>Lines 54-140: \<open>ExpandFst\<close> up to, and without, the final \<open>Connect\<close>.\<close>

definition expand_search ::
  "'w semiring \<Rightarrow> (int list \<Rightarrow> int list) \<Rightarrow> bool \<Rightarrow> 'w fst \<Rightarrow> int set \<Rightarrow> int \<Rightarrow> nat \<Rightarrow> nat
   \<Rightarrow> heap \<Rightarrow> nat \<Rightarrow> (fault + 'w store) option" where
  "expand_search W iter match_input ifst delim max_length ip op h fuel =
     (case expand_init W iter match_input ifst delim ip op h of
        Inl e \<Rightarrow> Some (Inl e)
      | Inr c \<Rightarrow>
          (case expand_loop W match_input ifst delim max_length ip op fuel c of
             None \<Rightarrow> None
           | Some (Inl e) \<Rightarrow> Some (Inl e)
           | Some (Inr c') \<Rightarrow> Some (Inr (store c'))))"

subsection \<open>The final trim\<close>

text \<open>
  Modelled from the spec: \<open>Connect\<close> (line 143) is a function of the OpenFst library and
  is not part of the source. The spec describes it as the external Trim collaborator,
  "removing automaton states that cannot appear on any path from the start state to a
  final state". The model keeps the states that are reachable from the start state and
  from which a final state is reachable, under their ids, and the arcs between them.
\<close>

record 'w trimmed_fst =
  t_start :: int
  t_states :: "(int \<times> 'w fst_state) list"

definition all_states :: "'w fst \<Rightarrow> int list" where
  "all_states f = map int [0..<length (states f)]"

definition forward_step :: "'w fst \<Rightarrow> int list \<Rightarrow> int list" where
  "forward_step f S = remdups (S @ concat (map (\<lambda>s. map nextstate (arcs_of f s)) S))"

definition accessible_states :: "'w fst \<Rightarrow> int list" where
  "accessible_states f = (forward_step f ^^ length (states f)) [start f]"

definition backward_step :: "'w fst \<Rightarrow> int list \<Rightarrow> int list" where
  "backward_step f S =
     filter (\<lambda>s. s \<in> set S \<or> list_ex (\<lambda>a. nextstate a \<in> set S) (arcs_of f s)) (all_states f)"

definition coaccessible_states :: "'w semiring \<Rightarrow> 'w fst \<Rightarrow> int list" where
  "coaccessible_states W f =
     (backward_step f ^^ length (states f))
       (filter (\<lambda>s. final (states f ! nat s) \<noteq> Zero W) (all_states f))"

definition Connect :: "'w semiring \<Rightarrow> 'w fst \<Rightarrow> 'w trimmed_fst" where
  "Connect W f =
     (let keep = filter (\<lambda>s. s \<in> set (accessible_states f) \<and> s \<in> set (coaccessible_states W f))
                   (all_states f)
      in \<lparr>t_start = (if start f \<in> set keep then start f else - 1),
          t_states = map (\<lambda>s. (s, (states f ! nat s)
                           \<lparr>arcs := filter (\<lambda>a. nextstate a \<in> set keep) (arcs (states f ! nat s))\<rparr>))
                       keep\<rparr>)"

text \<open>Lines 33-144: \<open>ExpandFst\<close>; returns the output automaton and the interner store.\<close>

definition ExpandFst ::
  "'w semiring \<Rightarrow> (int list \<Rightarrow> int list) \<Rightarrow> bool \<Rightarrow> 'w fst \<Rightarrow> int set \<Rightarrow> int \<Rightarrow> nat \<Rightarrow> nat
   \<Rightarrow> heap \<Rightarrow> nat \<Rightarrow> (fault + 'w trimmed_fst \<times> heap) option" where
  "ExpandFst W iter match_input ifst delim max_length ip op h fuel =
     (case expand_search W iter match_input ifst delim max_length ip op h fuel of
        None \<Rightarrow> None
      | Some (Inl e) \<Rightarrow> Some (Inl e)
      | Some (Inr st) \<Rightarrow> Some (Inr (Connect W (ofst st), heap st)))"

section \<open>MapToSymbolsTable\<close>

definition digit_char :: "nat \<Rightarrow> char" where
  "digit_char d = ''0123456789'' ! d"

fun string_of_nat :: "nat \<Rightarrow> string" where
  "string_of_nat n =
     (if n < 10 then [digit_char n] else string_of_nat (n div 10) @ [digit_char (n mod 10)])"

declare string_of_nat.simps [simp del]

text \<open>\<open>ss << c\<close> for an integer \<open>c\<close>.\<close>

definition string_of_int :: "int \<Rightarrow> string" where
  "string_of_int i = (if i < 0 then CHR ''-'' # string_of_nat (nat (- i)) else string_of_nat (nat i))"

text \<open>Lines 157-163: the name of a label sequence.\<close>

definition symbol_name :: "int list \<Rightarrow> string" where
  "symbol_name k =
     (let str = concat (map (\<lambda>c. string_of_int c @ ''_'') k)
      in if str = [] then ''0'' else butlast str)"

text \<open>\<open>operator<\<close> of \<open>std::string\<close> and of \<open>std::pair\<close>, used by \<open>std::sort\<close>.\<close>

fun string_less :: "string \<Rightarrow> string \<Rightarrow> bool" where
  "string_less [] [] = False"
| "string_less [] (y # ys) = True"
| "string_less (x # xs) [] = False"
| "string_less (x # xs) (y # ys) =
     ((of_char x :: nat) < of_char y \<or> (x = y \<and> string_less xs ys))"

definition pair_less :: "int \<times> string \<Rightarrow> int \<times> string \<Rightarrow> bool" where
  "pair_less a b = (fst a < fst b \<or> (fst a = fst b \<and> string_less (snd a) (snd b)))"

fun insert_sorted :: "int \<times> string \<Rightarrow> (int \<times> string) list \<Rightarrow> (int \<times> string) list" where
  "insert_sorted x [] = [x]"
| "insert_sorted x (y # ys) = (if pair_less y x then y # insert_sorted x ys else x # y # ys)"

definition sort_pairs :: "(int \<times> string) list \<Rightarrow> (int \<times> string) list" where
  "sort_pairs xs = foldr insert_sorted xs []"

text \<open>
  Modelled from the spec: \<open>SymbolTable\<close> and \<open>SymbolTable::AddSymbol(symbol, key)\<close>
  belong to the OpenFst library and are not part of the source. The table is the
  spec's list of (id, name) pairs; adding a name that is already present keeps the
  table and returns the id the name has, which line 173 compares with the requested id.
\<close>

type_synonym symbol_table = "(int \<times> string) list"

definition AddSymbol :: "symbol_table \<Rightarrow> string \<Rightarrow> int \<Rightarrow> symbol_table \<times> int" where
  "AddSymbol t v k =
     (case find (\<lambda>e. snd e = v) t of
        Some e \<Rightarrow> (t, fst e)
      | None \<Rightarrow> (t @ [(k, v)], k))"

text \<open>Lines 169-174, with \<open>KALDI_ASSERT(kt == k)\<close>.\<close>

fun add_symbols :: "(int \<times> string) list \<Rightarrow> symbol_table \<Rightarrow> fault + symbol_table" where
  "add_symbols [] t = Inr t"
| "add_symbols ((k, v) # rest) t =
     (let (t', kt) = AddSymbol t v k
      in if kt = k then add_symbols rest t' else Inl AssertionFailed)"

text \<open>Lines 146-175. The pairs are sorted, so the order in which the map is read does
  not matter; the model reads it in insertion order.\<close>

definition MapToSymbolsTable :: "label_map \<Rightarrow> symbol_table \<Rightarrow> fault + symbol_table" where
  "MapToSymbolsTable smap symtab =
     add_symbols (sort_pairs (map (\<lambda>(k, v). (v, symbol_name k)) smap)) symtab"

section \<open>The driver\<close>

text \<open>
  \<open>KALDI_ERR\<close> throws; \<open>main\<close> catches the exception, prints it and returns 1.
  \<open>UsageError\<close> is the \<open>exit(1)\<close> after \<open>PrintUsage\<close>.
\<close>

datatype error = UsageError | EpsilonDelimiter | BadScale

text \<open>
  Lines 257-262. The argument is read with \<open>delimiter_symbols_iss >> tmp\<close>; the model
  takes the sequence of labels that the stream extracts, in order.
\<close>

fun parse_delimiters :: "int list \<Rightarrow> int set \<Rightarrow> error + int set" where
  "parse_delimiters [] delimiter_symbols = Inr delimiter_symbols"
| "parse_delimiters (tmp # rest) delimiter_symbols =
     (if tmp = 0 then Inl EpsilonDelimiter
      else parse_delimiters rest (insert tmp delimiter_symbols))"

text \<open>The options registered with \<open>ParseOptions\<close>; \<open>beam = None\<close> is infinity, and
  \<open>max_length_opt\<close> is the variable \<open>max_length\<close> of \<open>main\<close>.\<close>

record options =
  acoustic_scale :: real
  graph_scale :: real
  beam :: "real option"
  max_length_opt :: int
  save_symbols :: string

text \<open>\<open>fst::ScaleLattice\<close> and \<open>PruneLattice\<close> are functions of the Kaldi library, taken
  as parameters.\<close>

record 'w kaldi =
  ScaleLattice :: "real \<Rightarrow> real \<Rightarrow> 'w fst \<Rightarrow> 'w fst"
  PruneLattice :: "real \<Rightarrow> 'w fst \<Rightarrow> 'w fst"

text \<open>Lines 290-300.\<close>

definition preprocess :: "'w kaldi \<Rightarrow> options \<Rightarrow> 'w fst \<Rightarrow> 'w fst" where
  "preprocess K opts lat =
     (let lat1 = (if acoustic_scale opts \<noteq> 1 \<or> graph_scale opts \<noteq> 1
                  then ScaleLattice K (graph_scale opts) (acoustic_scale opts) lat else lat);
          lat2 = (case beam opts of None \<Rightarrow> lat1 | Some b \<Rightarrow> PruneLattice K b lat1)
      in if acoustic_scale opts \<noteq> 1 \<or> graph_scale opts \<noteq> 1
         then ScaleLattice K (1 / graph_scale opts) (1 / acoustic_scale opts) lat2 else lat2)"

record 'w written =
  lattice_key :: string
  olat :: "'w trimmed_fst"
  symbols :: "symbol_table option"

text \<open>
  Lines 284-319: the loop over the input lattices. \<open>label_map\<close> is the one map of the
  driver, passed to \<open>ExpandFst\<close> for both sides (address 0 of the store), with the
  default \<open>match_input = false\<close>.
\<close>

fun lattice_loop ::
  "'w semiring \<Rightarrow> (int list \<Rightarrow> int list) \<Rightarrow> nat \<Rightarrow> 'w kaldi \<Rightarrow> options \<Rightarrow> int set
   \<Rightarrow> (string \<times> 'w fst) list \<Rightarrow> label_map \<Rightarrow> 'w written list
   \<Rightarrow> (fault + label_map \<times> 'w written list) option" where
  "lattice_loop W iter fuel K opts delimiter_symbols [] label_map out =
     Some (Inr (label_map, out))"
| "lattice_loop W iter fuel K opts delimiter_symbols ((k, lat0) # rest) label_map out =
     (let lat = preprocess K opts lat0;
          label_map1 = (if save_symbols opts = [] then clear label_map else label_map)
      in case ExpandFst W iter False lat delimiter_symbols (max_length_opt opts) 0 0
                (\<lambda>_. label_map1) fuel of
           None \<Rightarrow> None
         | Some (Inl e) \<Rightarrow> Some (Inl e)
         | Some (Inr (ol, h)) \<Rightarrow>
             (if save_symbols opts = []
              then (case MapToSymbolsTable (h 0) [] of
                      Inl e \<Rightarrow> Some (Inl e)
                    | Inr symtab \<Rightarrow>
                        lattice_loop W iter fuel K opts delimiter_symbols rest (h 0)
                          (out @ [\<lparr>lattice_key = k, olat = ol, symbols = Some symtab\<rparr>]))
              else lattice_loop W iter fuel K opts delimiter_symbols rest (h 0)
                     (out @ [\<lparr>lattice_key = k, olat = ol, symbols = None\<rparr>])))"

record 'w main_result =
  exit_code :: int
  reported :: "error option"
  lattices_written :: "'w written list"
  symbols_file :: "symbol_table option"

definition exit_with :: "error \<Rightarrow> 'w main_result" where
  "exit_with e =
     \<lparr>exit_code = 1, reported = Some e, lattices_written = [], symbols_file = None\<rparr>"

text \<open>Lines 196-335: \<open>main\<close>, from the parsed options on.\<close>

definition main ::
  "'w semiring \<Rightarrow> (int list \<Rightarrow> int list) \<Rightarrow> nat \<Rightarrow> 'w kaldi \<Rightarrow> options \<Rightarrow> nat \<Rightarrow> int list
   \<Rightarrow> (string \<times> 'w fst) list \<Rightarrow> (fault + 'w main_result) option" where
  "main W iter fuel K opts num_args delimiter_arg lattices =
     (if num_args \<noteq> 3 then Some (Inr (exit_with UsageError))
      else case parse_delimiters delimiter_arg {} of
             Inl e \<Rightarrow> Some (Inr (exit_with e))
           | Inr delimiter_symbols \<Rightarrow>
               if graph_scale opts \<le> 0 \<or> acoustic_scale opts \<le> 0
               then Some (Inr (exit_with BadScale))
               else (case lattice_loop W iter fuel K opts delimiter_symbols lattices [] [] of
                       None \<Rightarrow> None
                     | Some (Inl e) \<Rightarrow> Some (Inl e)
                     | Some (Inr (label_map, out)) \<Rightarrow>
                         if save_symbols opts \<noteq> []
                         then (case MapToSymbolsTable label_map [] of
                                 Inl e \<Rightarrow> Some (Inl e)
                               | Inr symtab \<Rightarrow>
                                   Some (Inr \<lparr>exit_code = 0, reported = None,
                                              lattices_written = out,
                                              symbols_file = Some symtab\<rparr>))
                         else Some (Inr \<lparr>exit_code = 0, reported = None,
                                          lattices_written = out, symbols_file = None\<rparr>)))"

section \<open>Paths of the source automaton\<close>

text \<open>
  The notions the properties are stated with: walks through the source automaton, the
  weight and label sequences of a walk, and the stack entry that a walk from \<open>q0\<close>
  produces.
\<close>

fun is_walk :: "'w fst \<Rightarrow> int \<Rightarrow> 'w arc list \<Rightarrow> bool" where
  "is_walk f q [] = True"
| "is_walk f q (a # as) = (a \<in> set (arcs_of f q) \<and> is_walk f (nextstate a) as)"

definition end_state :: "int \<Rightarrow> 'w arc list \<Rightarrow> int" where
  "end_state q p = (if p = [] then q else nextstate (last p))"

text \<open>\<open>Times\<close> applied from \<open>One\<close> along the walk, in walk order.\<close>

definition path_weight :: "'w semiring \<Rightarrow> 'w arc list \<Rightarrow> 'w" where
  "path_weight W p = foldl (Times W) (One W) (map weight p)"

definition path_ilabels :: "'w arc list \<Rightarrow> int list" where
  "path_ilabels p = filter (\<lambda>l. l \<noteq> 0) (map ilabel p)"

definition path_olabels :: "'w arc list \<Rightarrow> int list" where
  "path_olabels p = filter (\<lambda>l. l \<noteq> 0) (map olabel p)"

definition entry_of_path :: "'w semiring \<Rightarrow> int \<Rightarrow> 'w arc list \<Rightarrow> 'w sstate" where
  "entry_of_path W q0 p =
     (q0, end_state q0 p, path_weight W p, path_ilabels p, path_olabels p)"

text \<open>The number of non-epsilon labels of a walk on the matched side.\<close>

definition match_count :: "bool \<Rightarrow> 'w arc list \<Rightarrow> nat" where
  "match_count match_input p = length (filter (\<lambda>a. match_label match_input a \<noteq> 0) p)"

text \<open>All walks of fewer than \<open>n\<close> arcs that leave state \<open>q\<close>, parallel arcs counted
  apart, in the order in which the search visits them (the last arc of a state first).\<close>

fun walks_upto :: "'w fst \<Rightarrow> int \<Rightarrow> nat \<Rightarrow> 'w arc list list" where
  "walks_upto f q 0 = []"
| "walks_upto f q (Suc n) =
     [] # concat (map (\<lambda>a. map ((#) a) (walks_upto f (nextstate a) n)) (rev (arcs_of f q)))"

definition is_final :: "'w semiring \<Rightarrow> 'w fst \<Rightarrow> int \<Rightarrow> bool" where
  "is_final W f q = (case state_at f q of None \<Rightarrow> False | Some st \<Rightarrow> final st \<noteq> Zero W)"

definition has_delimiter_arc :: "bool \<Rightarrow> int set \<Rightarrow> 'w fst \<Rightarrow> int \<Rightarrow> bool" where
  "has_delimiter_arc match_input delim f q =
     list_ex (\<lambda>a. match_label match_input a \<in> delim) (arcs_of f q)"

text \<open>The id a table holds for a sequence (\<open>- 1\<close> when it holds none).\<close>

definition lookup_id :: "label_map \<Rightarrow> int list \<Rightarrow> int" where
  "lookup_id m seq = (case map_of m seq of None \<Rightarrow> - 1 | Some v \<Rightarrow> v)"

text \<open>The stack entry pushed for arc \<open>a\<close> from entry \<open>e\<close> (line 123), and the test of
  lines 114-117 under which it is pushed.\<close>

definition extend_entry :: "'w semiring \<Rightarrow> 'w sstate \<Rightarrow> 'w arc \<Rightarrow> 'w sstate" where
  "extend_entry W e a =
     (case e of (q0, q1, w, ilbls, olbls) \<Rightarrow>
        (q0, nextstate a, Times W w (weight a),
         push_back_nonzero (ilabel a) ilbls, push_back_nonzero (olabel a) olbls))"

definition pushable :: "bool \<Rightarrow> int set \<Rightarrow> int \<Rightarrow> 'w sstate \<Rightarrow> 'w arc \<Rightarrow> bool" where
  "pushable match_input delim max_length e a =
     (case e of (q0, q1, w, ilbls, olbls) \<Rightarrow>
        match_label match_input a \<notin> delim \<and>
        (if match_input then length ilbls else length olbls)
          + (if match_label match_input a = 0 then 0 else 1) \<le> size_t_of_int32 max_length)"

text \<open>The condition of line 133 for a popped entry.\<close>

definition emits :: "'w semiring \<Rightarrow> bool \<Rightarrow> int set \<Rightarrow> 'w fst \<Rightarrow> 'w sstate \<Rightarrow> bool" where
  "emits W match_input delim f e =
     (case e of (q0, q1, w, ilbls, olbls) \<Rightarrow>
        q0 \<noteq> q1 \<and> (has_delimiter_arc match_input delim f q1 \<or> is_final W f q1))"

text \<open>An arc of the output automaton carries the ids of the sequences of entry \<open>e\<close>,
  its weight and its end state.\<close>

definition arc_of_entry :: "heap \<Rightarrow> nat \<Rightarrow> nat \<Rightarrow> 'w arc \<Rightarrow> 'w sstate \<Rightarrow> bool" where
  "arc_of_entry h ip op a e =
     (case e of (q0, q1, w, ilbls, olbls) \<Rightarrow>
        map_of (h ip) ilbls = Some (ilabel a) \<and> map_of (h op) olbls = Some (olabel a) \<and>
        weight a = w \<and> nextstate a = q1)"

text \<open>An arc of the output automaton is the copy of the source arc \<open>a\<close> made by the
  first pass.\<close>

definition copy_of_arc :: "heap \<Rightarrow> nat \<Rightarrow> nat \<Rightarrow> 'w arc \<Rightarrow> 'w arc \<Rightarrow> bool" where
  "copy_of_arc h ip op a' a =
     (map_of (h ip) (push_back_nonzero (ilabel a) []) = Some (ilabel a') \<and>
      map_of (h op) (push_back_nonzero (olabel a) []) = Some (olabel a') \<and>
      weight a' = weight a \<and> nextstate a' = nextstate a)"

text \<open>Every table of \<open>h'\<close> extends the table of \<open>h\<close> at the same address.\<close>

definition heap_le :: "heap \<Rightarrow> heap \<Rightarrow> bool" where
  "heap_le h h' = (\<forall>p k v. map_of (h p) k = Some v \<longrightarrow> map_of (h' p) k = Some v)"

text \<open>The entries that lines 111-128 push for a popped entry \<open>e\<close>, in arc order.\<close>

definition pushed_entries ::
  "'w semiring \<Rightarrow> bool \<Rightarrow> 'w fst \<Rightarrow> int set \<Rightarrow> int \<Rightarrow> 'w sstate \<Rightarrow> 'w sstate list" where
  "pushed_entries W match_input ifst delim M e =
     map (extend_entry W e)
       (filter (pushable match_input delim M e) (arcs_of ifst (fst (snd e))))"

text \<open>The length that line 115 reads from an entry.\<close>

definition match_length :: "bool \<Rightarrow> 'w sstate \<Rightarrow> nat" where
  "match_length match_input e =
     (case e of (q0, q1, w, ilbls, olbls) \<Rightarrow> if match_input then length ilbls else length olbls)"

text \<open>The entry reached from entry \<open>e\<close> along a walk, and the test that every arc of
  the walk is pushed.\<close>

definition extend_path :: "'w semiring \<Rightarrow> 'w sstate \<Rightarrow> 'w arc list \<Rightarrow> 'w sstate" where
  "extend_path W e p = foldl (extend_entry W) e p"

fun traversable ::
  "'w semiring \<Rightarrow> bool \<Rightarrow> int set \<Rightarrow> int \<Rightarrow> 'w sstate \<Rightarrow> 'w arc list \<Rightarrow> bool" where
  "traversable W match_input delim M e [] = True"
| "traversable W match_input delim M e (a # p) =
     (pushable match_input delim M e a \<and>
      traversable W match_input delim M (extend_entry W e a) p)"

text \<open>The entries the loop pops below entry \<open>e\<close> within depth \<open>n\<close>, in the order in
  which it pops them.\<close>

fun subtree ::
  "'w semiring \<Rightarrow> bool \<Rightarrow> 'w fst \<Rightarrow> int set \<Rightarrow> int \<Rightarrow> nat \<Rightarrow> 'w sstate \<Rightarrow> 'w sstate list" where
  "subtree W match_input ifst delim M 0 e = []"
| "subtree W match_input ifst delim M (Suc n) e =
     e # concat (map (subtree W match_input ifst delim M n)
                  (rev (pushed_entries W match_input ifst delim M e)))"

text \<open>A stack entry that comes from a walk of the source automaton that starts in its
  first state, has no delimiter arc and passed the length test.\<close>

definition path_entry ::
  "'w semiring \<Rightarrow> bool \<Rightarrow> 'w fst \<Rightarrow> int set \<Rightarrow> int \<Rightarrow> 'w sstate \<Rightarrow> bool" where
  "path_entry W match_input ifst delim M e =
     (\<exists>p. is_walk ifst (fst e) p \<and> e = entry_of_path W (fst e) p \<and>
          (\<forall>a\<in>set p. match_label match_input a \<notin> delim) \<and>
          match_count match_input p \<le> size_t_of_int32 M)"

text \<open>The end states of the delimiter arcs of an automaton.\<close>

definition delimiter_targets :: "bool \<Rightarrow> int set \<Rightarrow> 'w fst \<Rightarrow> int set" where
  "delimiter_targets mi delim f =
     {nextstate a |s a. a \<in> set (arcs_of f s) \<and> match_label mi a \<in> delim}"

section \<open>Invariants of the two passes\<close>

text \<open>The word-start set after the arcs \<open>as\<close> of one state have been read (lines 81, 92).\<close>

definition seeds_of_arcs :: "bool \<Rightarrow> int set \<Rightarrow> 'w arc list \<Rightarrow> int list \<Rightarrow> int list" where
  "seeds_of_arcs mi delim as seeds =
     fold (\<lambda>a r. uset_insert r (nextstate a)) (filter (\<lambda>a. match_label mi a \<in> delim) as) seeds"

text \<open>What the first pass has done once it has read the states \<open>ss\<close>: their final
  weights are copied, each of them has received the copies of its delimiter arcs, in
  order, and the end states of these arcs have joined the word-start set.\<close>

definition first_pass_ok ::
  "bool \<Rightarrow> int set \<Rightarrow> nat \<Rightarrow> nat \<Rightarrow> 'w fst \<Rightarrow> nat list \<Rightarrow> 'w store \<times> int list
   \<Rightarrow> 'w store \<times> int list \<Rightarrow> bool" where
  "first_pass_ok mi delim ip op ifst ss x x' =
     (case (x, x') of ((st, seeds), (st', seeds')) \<Rightarrow>
        heap_le (heap st) (heap st') \<and>
        start (ofst st') = start (ofst st) \<and>
        length (states (ofst st')) = length (states (ofst st)) \<and>
        (\<forall>i<length (states ifst).
           final (states (ofst st') ! i) =
             (if i \<in> set ss then final (states ifst ! i) else final (states (ofst st) ! i))) \<and>
        (\<forall>s. \<exists>new. arcs_of (ofst st') s = arcs_of (ofst st) s @ new \<and>
               list_all2 (copy_of_arc (heap st') ip op) new
                 (if s \<in> int ` set ss
                  then filter (\<lambda>a. match_label mi a \<in> delim) (arcs_of ifst s) else [])) \<and>
        set seeds' = set seeds \<union>
          (\<Union>s\<in>set ss. nextstate ` {a \<in> set (arcs (states ifst ! s)). match_label mi a \<in> delim}) \<and>
        (distinct seeds \<longrightarrow> distinct seeds'))"

text \<open>What the search has done between two of its configurations: the interner has
  only grown, start state and final weights are unchanged, and every arc added to a
  state \<open>s\<close> belongs to an emitting entry with first state \<open>s\<close> that satisfies \<open>Q\<close>.\<close>

definition search_extends ::
  "('w sstate \<Rightarrow> bool) \<Rightarrow> 'w semiring \<Rightarrow> bool \<Rightarrow> 'w fst \<Rightarrow> int set \<Rightarrow> nat \<Rightarrow> nat
   \<Rightarrow> 'w store \<Rightarrow> 'w store \<Rightarrow> bool" where
  "search_extends Q W match_input ifst delim ip op st st' =
     (heap_le (heap st) (heap st') \<and>
      start (ofst st') = start (ofst st) \<and>
      map final (states (ofst st')) = map final (states (ofst st)) \<and>
      (\<forall>s. \<exists>new. arcs_of (ofst st') s = arcs_of (ofst st) s @ new \<and>
             (\<forall>a\<in>set new. \<exists>e. Q e \<and> emits W match_input delim ifst e \<and> fst e = s \<and>
                              arc_of_entry (heap st') ip op a e)))"

text \<open>An entry whose states are states of the source and below which the search
  pushes walks of fewer than \<open>N\<close> arcs only.\<close>

definition bounded_entry ::
  "'w semiring \<Rightarrow> bool \<Rightarrow> 'w fst \<Rightarrow> int set \<Rightarrow> int \<Rightarrow> nat \<Rightarrow> 'w sstate \<Rightarrow> bool" where
  "bounded_entry W mi ifst delim M N e =
     (valid_state ifst (fst e) \<and> valid_state ifst (fst (snd e)) \<and>
      (\<forall>p. is_walk ifst (fst (snd e)) p \<and> traversable W mi delim M e p \<longrightarrow> length p < N))"





section \<open>The inputs of a run\<close>

text \<open>
  The precondition of the spec on the source automaton: it has a start state, and the
  end state of every arc is one of its states.
\<close>

definition valid_fst :: "'w fst \<Rightarrow> bool" where
  "valid_fst f =
     (valid_state f (start f) \<and>
      list_all (\<lambda>st. list_all (\<lambda>a. valid_state f (nextstate a)) (arcs st)) (states f))"

text \<open>
  The precondition of the spec under which the search terminates: from every
  word-start state, the walks without a delimiter arc and with at most \<open>max_length\<close>
  non-epsilon labels on the matched side have fewer than \<open>N\<close> arcs.
\<close>

definition walks_bounded :: "bool \<Rightarrow> int set \<Rightarrow> int \<Rightarrow> 'w fst \<Rightarrow> nat \<Rightarrow> bool" where
  "walks_bounded mi delim M f N =
     (\<forall>q\<in>insert (start f) (delimiter_targets mi delim f). \<forall>p.
        is_walk f q p \<and> (\<forall>a\<in>set p. match_label mi a \<notin> delim) \<and>
        match_count mi p \<le> size_t_of_int32 M \<longrightarrow> length p < N)"

text \<open>The insertion history of the word-start set \<open>add_to_initial_stack\<close> (lines 68 and
  92): the start state, then the end states of the delimiter arcs in state and arc
  order.\<close>

definition word_starts :: "bool \<Rightarrow> int set \<Rightarrow> 'w fst \<Rightarrow> int list" where
  "word_starts mi delim ifst =
     fold (\<lambda>s seeds. seeds_of_arcs mi delim (arcs (states ifst ! s)) seeds)
       [0..<length (states ifst)] (uset_insert [] (start ifst))"


section \<open>Example inputs\<close>

text \<open>The tropical semiring on the extended naturals.\<close>

definition tropical :: "enat semiring" where
  "tropical = \<lparr>Times = (+), One = 0, Zero = \<infinity>\<rparr>"

text \<open>The worked example: states 0 (start), 1, 2, 3 (final) and the arcs
  \<open>0 \<rightarrow> 1\<close> (label 1), \<open>1 \<rightarrow> 2\<close> (label 2), \<open>2 \<rightarrow> 3\<close> (label 3), over any semiring.\<close>

definition chain_fst :: "'w semiring \<Rightarrow> 'w \<Rightarrow> 'w \<Rightarrow> 'w \<Rightarrow> 'w fst" where
  "chain_fst W w1 w2 w3 =
     \<lparr>start = 0,
      states = [\<lparr>final = Zero W, arcs = [Arc 1 1 w1 1]\<rparr>,
                \<lparr>final = Zero W, arcs = [Arc 2 2 w2 2]\<rparr>,
                \<lparr>final = Zero W, arcs = [Arc 3 3 w3 3]\<rparr>,
                \<lparr>final = One W, arcs = []\<rparr>]\<rparr>"

text \<open>The output automaton of the worked example before the trim, and its interner.\<close>

definition chain_ofst :: "'w semiring \<Rightarrow> 'w \<Rightarrow> 'w \<Rightarrow> 'w \<Rightarrow> 'w fst" where
  "chain_ofst W w1 w2 w3 =
     \<lparr>start = 0,
      states = [\<lparr>final = Zero W, arcs = [Arc 2 2 (Times W (Times W (One W) w1) w2) 2]\<rparr>,
                \<lparr>final = Zero W, arcs = []\<rparr>,
                \<lparr>final = Zero W, arcs = [Arc 1 1 w3 3]\<rparr>,
                \<lparr>final = One W, arcs = []\<rparr>]\<rparr>"

definition chain_heap :: heap where
  "chain_heap = (\<lambda>_. [])(0 := [([], 0), ([3], 1), ([1, 2], 2)])"

text \<open>The result of the search on the worked example without delimiters.\<close>

definition path_store :: "enat store" where
  "path_store =
     \<lparr>ofst = \<lparr>start = 0,
               states = [\<lparr>final = \<infinity>, arcs = [Arc 1 1 18 3]\<rparr>,
                         \<lparr>final = \<infinity>, arcs = []\<rparr>,
                         \<lparr>final = \<infinity>, arcs = []\<rparr>,
                         \<lparr>final = 0, arcs = []\<rparr>]\<rparr>,
      heap = (\<lambda>_. [])(0 := [([], 0), ([1, 2, 3], 1)])\<rparr>"

text \<open>A source automaton with one arc \<open>0 \<rightarrow> 1\<close>, input label 5 and output label epsilon,
  into a final state.\<close>

definition eps_fst :: "enat fst" where
  "eps_fst =
     \<lparr>start = 0,
      states = [\<lparr>final = \<infinity>, arcs = [Arc 5 0 7 1]\<rparr>, \<lparr>final = 0, arcs = []\<rparr>]\<rparr>"

text \<open>Its configuration before the loop and its result, with \<open>max_length = 0\<close>.\<close>

definition eps_config0 :: "enat config" where
  "eps_config0 =
     \<lparr>stack = [(0, 0, 0, [], [])],
      store = \<lparr>ofst = \<lparr>start = 0,
                        states = [\<lparr>final = \<infinity>, arcs = []\<rparr>, \<lparr>final = 0, arcs = []\<rparr>]\<rparr>,
                heap = (\<lambda>_. [])(0 := [([], 0)])\<rparr>\<rparr>"

definition eps_store :: "enat store" where
  "eps_store =
     \<lparr>ofst = \<lparr>start = 0,
               states = [\<lparr>final = \<infinity>, arcs = [Arc 1 0 7 1]\<rparr>, \<lparr>final = 0, arcs = []\<rparr>]\<rparr>,
      heap = (\<lambda>_. [])(0 := [([], 0), ([5], 1)])\<rparr>"

text \<open>A cycle through the start state, which is final: \<open>0 \<rightarrow> 1\<close> (label 1) and
  \<open>1 \<rightarrow> 0\<close> (label 2).\<close>

definition cycle_fst :: "enat fst" where
  "cycle_fst =
     \<lparr>start = 0,
      states = [\<lparr>final = 0, arcs = [Arc 1 1 5 1]\<rparr>, \<lparr>final = \<infinity>, arcs = [Arc 2 2 6 0]\<rparr>]\<rparr>"

text \<open>The result of the search on it, with \<open>max_length = 2\<close>.\<close>

definition cycle_store :: "enat store" where
  "cycle_store =
     \<lparr>ofst = \<lparr>start = 0,
               states = [\<lparr>final = 0, arcs = []\<rparr>, \<lparr>final = \<infinity>, arcs = []\<rparr>]\<rparr>,
      heap = (\<lambda>_. [])(0 := [([], 0)])\<rparr>"

text \<open>A driver without scaling and pruning, and the default options.\<close>

definition no_kaldi :: "'w kaldi" where
  "no_kaldi = \<lparr>ScaleLattice = (\<lambda>g a f. f), PruneLattice = (\<lambda>b f. f)\<rparr>"

definition default_options :: options where
  "default_options =
     \<lparr>acoustic_scale = 1, graph_scale = 1, beam = None, max_length_opt = 2147483647,
      save_symbols = []\<rparr>"

text \<open>Two word-start states from which one arc each is emitted: the delimiter arc
  \<open>0 \<rightarrow> 1\<close> (label 9) and the arcs \<open>0 \<rightarrow> 2\<close> (label 1) and \<open>1 \<rightarrow> 2\<close> (label 2) into the
  final state 2.\<close>

definition fork_fst :: "enat fst" where
  "fork_fst =
     \<lparr>start = 0,
      states = [\<lparr>final = \<infinity>, arcs = [Arc 9 9 1 1, Arc 1 1 2 2]\<rparr>,
                \<lparr>final = \<infinity>, arcs = [Arc 2 2 3 2]\<rparr>,
                \<lparr>final = 0, arcs = []\<rparr>]\<rparr>"

section \<open>Properties of the program\<close>

subsection \<open>The output automaton under AddArc and SetFinal\<close>

lemma AddArc_Some: "valid_state f s \<Longrightarrow> \<exists>f'. AddArc f s a = Some f'"
  by (simp add: AddArc_def)

lemma AddArc_valid: "AddArc f s a = Some f' \<Longrightarrow> valid_state f s"
  by (simp add: AddArc_def split: if_splits)

lemma AddArc_length: "AddArc f s a = Some f' \<Longrightarrow> length (states f') = length (states f)"
  by (auto simp: AddArc_def split: if_splits)

lemma AddArc_start: "AddArc f s a = Some f' \<Longrightarrow> start f' = start f"
  by (auto simp: AddArc_def split: if_splits)

lemma AddArc_final:
  "AddArc f s a = Some f' \<Longrightarrow> map final (states f') = map final (states f)"
  by (auto simp: AddArc_def map_update list_update_same_conv valid_state_def split: if_splits)

lemma AddArc_arcs_of:
  "AddArc f s a = Some f' \<Longrightarrow>
     arcs_of f' t = (if t = s then arcs_of f s @ [a] else arcs_of f t)"
  by (auto simp: AddArc_def arcs_of_def state_at_def valid_state_def nth_list_update
           split: if_splits)

lemma SetFinal_Some: "valid_state f s \<Longrightarrow> \<exists>f'. SetFinal f s w = Some f'"
  by (simp add: SetFinal_def)

lemma SetFinal_length: "SetFinal f s w = Some f' \<Longrightarrow> length (states f') = length (states f)"
  by (auto simp: SetFinal_def split: if_splits)

lemma SetFinal_start: "SetFinal f s w = Some f' \<Longrightarrow> start f' = start f"
  by (auto simp: SetFinal_def split: if_splits)

lemma SetFinal_arcs_of: "SetFinal f s w = Some f' \<Longrightarrow> arcs_of f' t = arcs_of f t"
  by (auto simp: SetFinal_def arcs_of_def state_at_def valid_state_def nth_list_update
           split: if_splits)

lemma SetFinal_final:
  "SetFinal f s w = Some f' \<Longrightarrow> i < length (states f) \<Longrightarrow>
     final (states f' ! i) = (if int i = s then w else final (states f ! i))"
  by (auto simp: SetFinal_def valid_state_def nth_list_update split: if_splits)

subsection \<open>The interner store only grows\<close>

lemma heap_le_refl: "heap_le h h"
  by (simp add: heap_le_def)

lemma heap_le_trans: "heap_le h1 h2 \<Longrightarrow> heap_le h2 h3 \<Longrightarrow> heap_le h1 h3"
  by (simp add: heap_le_def)

lemma insert_map_grows:
  "insert_map m k v = (m', v') \<Longrightarrow> map_of m k' = Some u \<Longrightarrow> map_of m' k' = Some u"
  by (auto simp: insert_map_def map_add_def split: option.splits)

lemma insert_map_holds: "insert_map m k v = (m', v') \<Longrightarrow> map_of m' k = Some v'"
  by (auto simp: insert_map_def map_add_def split: option.splits)

lemma intern_at_le: "intern_at h p k = (h', v) \<Longrightarrow> heap_le h h'"
  by (auto simp: intern_at_def intern_def heap_le_def split: prod.splits
           dest: insert_map_grows)

lemma intern_at_holds: "intern_at h p k = (h', v) \<Longrightarrow> map_of (h' p) k = Some v"
  by (auto simp: intern_at_def intern_def split: prod.splits dest: insert_map_holds)

lemma reserve_epsilon_at_le: "heap_le h (reserve_epsilon_at h p)"
  by (auto simp: reserve_epsilon_at_def reserve_epsilon_def heap_le_def insert_map_def map_add_def
           split: option.splits)

lemma arc_of_entry_mono: "heap_le h h' \<Longrightarrow> arc_of_entry h ip op a e \<Longrightarrow> arc_of_entry h' ip op a e"
  by (auto simp: arc_of_entry_def heap_le_def split: prod.splits)

lemma copy_of_arc_mono: "heap_le h h' \<Longrightarrow> copy_of_arc h ip op a' a \<Longrightarrow> copy_of_arc h' ip op a' a"
  by (auto simp: copy_of_arc_def heap_le_def)

subsection \<open>The inner loop over the arcs of q1\<close>

lemma scan_arcs_eq:
  "scan_arcs W mi delim M e as S d =
     (rev (map (extend_entry W e) (filter (pushable mi delim M e) as)) @ S,
      d \<or> list_ex (\<lambda>a. match_label mi a \<in> delim) as)"
proof (induction as arbitrary: S d)
  case Nil
  show ?case by (cases e) simp
next
  case (Cons a as)
  obtain q0 q1 w il ol where e: "e = (q0, q1, w, il, ol)" by (cases e) auto
  show ?case
    unfolding e using Cons [unfolded e]
    by (simp add: extend_entry_def pushable_def Let_def)
qed

lemma is_final_Some: "state_at f q = Some st \<Longrightarrow> is_final W f q = (final st \<noteq> Zero W)"
  by (simp add: is_final_def)

lemma arcs_of_Some: "state_at f q = Some st \<Longrightarrow> arcs_of f q = arcs st"
  by (simp add: arcs_of_def)

lemma expand_step_cases:
  assumes "stack c = (q0, q1, w, il, ol) # S"
    and "expand_step W mi ifst delim M ip op c = Inr c'"
  shows "valid_state ifst q1"
    and "stack c' = rev (pushed_entries W mi ifst delim M (q0, q1, w, il, ol)) @ S"
    and "if emits W mi delim ifst (q0, q1, w, il, ol)
         then (\<exists>h1 ilab olab.
                 intern_at (heap (store c)) ip il = (h1, ilab) \<and>
                 intern_at h1 op ol = (heap (store c'), olab) \<and>
                 AddArc (ofst (store c)) q0 (Arc ilab olab w q1) = Some (ofst (store c')))
         else store c' = store c"
proof -
  from assms obtain st1 where st1: "state_at ifst q1 = Some st1"
    by (auto simp: expand_step_def split: option.splits)
  then show "valid_state ifst q1"
    by (simp add: state_at_def split: if_splits)
  note defs = expand_step_def scan_arcs_eq pushed_entries_def emits_def
    has_delimiter_arc_def is_final_Some [OF st1] arcs_of_Some [OF st1]
  from assms st1 show "stack c' = rev (pushed_entries W mi ifst delim M (q0, q1, w, il, ol)) @ S"
    by (auto simp: defs split: if_splits prod.splits option.splits)
  from assms st1 show "if emits W mi delim ifst (q0, q1, w, il, ol)
         then (\<exists>h1 ilab olab.
                 intern_at (heap (store c)) ip il = (h1, ilab) \<and>
                 intern_at h1 op ol = (heap (store c'), olab) \<and>
                 AddArc (ofst (store c)) q0 (Arc ilab olab w q1) = Some (ofst (store c')))
         else store c' = store c"
    by (auto simp: defs split: if_splits prod.splits option.splits)
qed

lemma search_extends_refl: "search_extends Q W mi ifst delim ip op st st"
  by (simp add: search_extends_def heap_le_refl)

lemma search_extends_trans:
  assumes "search_extends Q W mi ifst delim ip op st1 st2"
    and "search_extends Q W mi ifst delim ip op st2 st3"
  shows "search_extends Q W mi ifst delim ip op st1 st3"
proof -
  have le: "heap_le (heap st1) (heap st3)"
    using assms by (auto simp: search_extends_def intro: heap_le_trans)
  have arcs: "\<exists>new. arcs_of (ofst st3) s = arcs_of (ofst st1) s @ new \<and>
             (\<forall>a\<in>set new. \<exists>e. Q e \<and> emits W mi delim ifst e \<and> fst e = s \<and>
                              arc_of_entry (heap st3) ip op a e)" for s
  proof -
    from assms(1) obtain n1 where n1: "arcs_of (ofst st2) s = arcs_of (ofst st1) s @ n1"
      "\<forall>a\<in>set n1. \<exists>e. Q e \<and> emits W mi delim ifst e \<and> fst e = s \<and>
                              arc_of_entry (heap st2) ip op a e"
      unfolding search_extends_def by blast
    from assms(2) obtain n2 where n2: "arcs_of (ofst st3) s = arcs_of (ofst st2) s @ n2"
      "\<forall>a\<in>set n2. \<exists>e. Q e \<and> emits W mi delim ifst e \<and> fst e = s \<and>
                              arc_of_entry (heap st3) ip op a e"
      unfolding search_extends_def by blast
    from assms(2) have le23: "heap_le (heap st2) (heap st3)"
      by (simp add: search_extends_def)
    have "\<exists>e. Q e \<and> emits W mi delim ifst e \<and> fst e = s \<and>
                arc_of_entry (heap st3) ip op a e" if "a \<in> set (n1 @ n2)" for a
    proof (cases "a \<in> set n1")
      case True
      with n1(2) obtain e where "Q e" "emits W mi delim ifst e" "fst e = s"
        "arc_of_entry (heap st2) ip op a e" by blast
      with arc_of_entry_mono [OF le23] show ?thesis by blast
    next
      case False
      with that have "a \<in> set n2" by simp
      with n2(2) show ?thesis by blast
    qed
    then have "\<forall>a\<in>set (n1 @ n2). \<exists>e. Q e \<and> emits W mi delim ifst e \<and> fst e = s \<and>
                              arc_of_entry (heap st3) ip op a e" by blast
    with n1(1) n2(1) show ?thesis by auto
  qed
  from assms le arcs show ?thesis
    by (simp add: search_extends_def)
qed

lemma expand_step_extends:
  assumes "stack c = e # S" and "Q e"
    and "expand_step W mi ifst delim M ip op c = Inr c'"
  shows "search_extends Q W mi ifst delim ip op (store c) (store c')"
proof -
  obtain q0 q1 w il ol where e: "e = (q0, q1, w, il, ol)" by (cases e) auto
  note step = expand_step_cases [OF assms(1) [unfolded e] assms(3)]
  show ?thesis
  proof (cases "emits W mi delim ifst (q0, q1, w, il, ol)")
    case False
    with step(3) show ?thesis by (simp add: search_extends_refl)
  next
    case True
    with step(3) obtain h1 ilab olab where
      i1: "intern_at (heap (store c)) ip il = (h1, ilab)" and
      i2: "intern_at h1 op ol = (heap (store c'), olab)" and
      add: "AddArc (ofst (store c)) q0 (Arc ilab olab w q1) = Some (ofst (store c'))"
      by auto
    have le2: "heap_le h1 (heap (store c'))" by (rule intern_at_le [OF i2])
    have le: "heap_le (heap (store c)) (heap (store c'))"
      by (rule heap_le_trans [OF intern_at_le [OF i1] le2])
    have "map_of (heap (store c') ip) il = Some ilab"
      using intern_at_holds [OF i1] le2 by (simp add: heap_le_def)
    then have arc: "arc_of_entry (heap (store c')) ip op (Arc ilab olab w q1) e"
      using intern_at_holds [OF i2] by (simp add: arc_of_entry_def e)
    have "\<exists>new. arcs_of (ofst (store c')) s = arcs_of (ofst (store c)) s @ new \<and>
             (\<forall>a\<in>set new. \<exists>e. Q e \<and> emits W mi delim ifst e \<and> fst e = s \<and>
                              arc_of_entry (heap (store c')) ip op a e)" for s
    proof (cases "s = q0")
      case True
      have "arcs_of (ofst (store c')) s = arcs_of (ofst (store c)) s @ [Arc ilab olab w q1]"
        using AddArc_arcs_of [OF add, of s] True by simp
      moreover have "\<forall>a\<in>set [Arc ilab olab w q1]. \<exists>e. Q e \<and> emits W mi delim ifst e \<and> fst e = s \<and>
                              arc_of_entry (heap (store c')) ip op a e"
        using arc assms(2) \<open>emits W mi delim ifst (q0, q1, w, il, ol)\<close> True e by auto
      ultimately show ?thesis by blast
    next
      case False
      then have "arcs_of (ofst (store c')) s = arcs_of (ofst (store c)) s @ []"
        using AddArc_arcs_of [OF add, of s] by simp
      then show ?thesis by force
    qed
    with le AddArc_start [OF add] AddArc_final [OF add] show ?thesis
      by (simp add: search_extends_def)
  qed
qed

lemma run_steps_extends:
  assumes closed: "\<And>e a. Q e \<Longrightarrow> a \<in> set (arcs_of ifst (fst (snd e))) \<Longrightarrow>
                     pushable mi delim M e a \<Longrightarrow> Q (extend_entry W e a)"
  shows "\<forall>e\<in>set (stack c). Q e \<Longrightarrow> run_steps W mi ifst delim M ip op k c = Inr c' \<Longrightarrow>
         (\<forall>e\<in>set (stack c'). Q e) \<and> search_extends Q W mi ifst delim ip op (store c) (store c')"
proof (induction k arbitrary: c)
  case 0
  then show ?case by (simp add: search_extends_refl)
next
  case (Suc k)
  show ?case
  proof (cases "stack c")
    case Nil
    with Suc.prems show ?thesis by (simp add: search_extends_refl)
  next
    case (Cons e S)
    with Suc.prems(2) obtain c1 where
      step: "expand_step W mi ifst delim M ip op c = Inr c1" and
      run: "run_steps W mi ifst delim M ip op k c1 = Inr c'"
      by (auto split: sum.splits)
    obtain q0 q1 w il ol where e: "e = (q0, q1, w, il, ol)" by (cases e) auto
    from Suc.prems(1) Cons have Qe: "Q e" and QS: "\<forall>x\<in>set S. Q x" by auto
    have "stack c1 = rev (pushed_entries W mi ifst delim M e) @ S"
      using expand_step_cases(2) [OF Cons [unfolded e] step] e by simp
    moreover have "\<forall>x\<in>set (pushed_entries W mi ifst delim M e). Q x"
      using closed [OF Qe] by (auto simp: pushed_entries_def)
    ultimately have Q1: "\<forall>x\<in>set (stack c1). Q x" using QS by auto
    from Suc.IH [OF Q1 run] expand_step_extends [where Q = Q, OF Cons Qe step]
    show ?thesis by (blast intro: search_extends_trans)
  qed
qed

subsection \<open>The first pass\<close>

lemma set_uset_insert: "set (uset_insert xs x) = insert x (set xs)"
  by (auto simp: uset_insert_def)

lemma distinct_uset_insert: "distinct xs \<Longrightarrow> distinct (uset_insert xs x)"
  by (auto simp: uset_insert_def)

lemma set_seeds_of_arcs:
  "set (seeds_of_arcs mi delim as seeds) =
     set seeds \<union> nextstate ` {a \<in> set as. match_label mi a \<in> delim}"
  unfolding seeds_of_arcs_def
  by (induction as arbitrary: seeds) (auto simp: set_uset_insert)

lemma distinct_seeds_of_arcs: "distinct seeds \<Longrightarrow> distinct (seeds_of_arcs mi delim as seeds)"
  unfolding seeds_of_arcs_def
  by (induction as arbitrary: seeds) (auto simp: distinct_uset_insert)

lemma delimiter_arcs_result:
  "valid_state (ofst st) s \<Longrightarrow>
   \<exists>st'. delimiter_arcs mi delim ip op s as (st, seeds) = Inr (st', seeds_of_arcs mi delim as seeds) \<and>
     heap_le (heap st) (heap st') \<and>
     start (ofst st') = start (ofst st) \<and>
     map final (states (ofst st')) = map final (states (ofst st)) \<and>
     (\<exists>new. arcs_of (ofst st') s = arcs_of (ofst st) s @ new \<and>
            list_all2 (copy_of_arc (heap st') ip op) new
              (filter (\<lambda>a. match_label mi a \<in> delim) as)) \<and>
     (\<forall>t. t \<noteq> s \<longrightarrow> arcs_of (ofst st') t = arcs_of (ofst st) t)"
proof (induction as arbitrary: st seeds)
  case Nil
  then show ?case by (simp add: seeds_of_arcs_def heap_le_refl)
next
  case (Cons a as)
  show ?case
  proof (cases "match_label mi a \<in> delim")
    case False
    with Cons.IH [OF Cons.prems, of seeds] show ?thesis
      by (simp add: seeds_of_arcs_def)
  next
    case True
    obtain h1 ilab where i1: "intern_at (heap st) ip (push_back_nonzero (ilabel a) []) = (h1, ilab)"
      by (cases "intern_at (heap st) ip (push_back_nonzero (ilabel a) [])") auto
    obtain h2 olab where i2: "intern_at h1 op (push_back_nonzero (olabel a) []) = (h2, olab)"
      by (cases "intern_at h1 op (push_back_nonzero (olabel a) [])") auto
    let ?a' = "Arc ilab olab (weight a) (nextstate a)"
    from AddArc_Some [OF Cons.prems] obtain f where add: "AddArc (ofst st) s ?a' = Some f"
      by blast
    let ?st1 = "\<lparr>ofst = f, heap = h2\<rparr>"
    have valid1: "valid_state (ofst ?st1) s"
      using Cons.prems AddArc_length [OF add] by (simp add: valid_state_def)
    from Cons.IH [OF valid1, of "uset_insert seeds (nextstate a)"] obtain st' new where
      run: "delimiter_arcs mi delim ip op s as (?st1, uset_insert seeds (nextstate a)) =
              Inr (st', seeds_of_arcs mi delim as (uset_insert seeds (nextstate a)))" and
      le: "heap_le h2 (heap st')" and
      st: "start (ofst st') = start f" and
      fin: "map final (states (ofst st')) = map final (states f)" and
      new: "arcs_of (ofst st') s = arcs_of f s @ new"
           "list_all2 (copy_of_arc (heap st') ip op) new (filter (\<lambda>a. match_label mi a \<in> delim) as)" and
      other: "\<forall>t. t \<noteq> s \<longrightarrow> arcs_of (ofst st') t = arcs_of f t"
      by auto
    have le12: "heap_le h1 h2" by (rule intern_at_le [OF i2])
    have "map_of (h2 ip) (push_back_nonzero (ilabel a) []) = Some ilab"
      using intern_at_holds [OF i1] le12 by (simp add: heap_le_def)
    then have "copy_of_arc h2 ip op ?a' a"
      using intern_at_holds [OF i2] by (simp add: copy_of_arc_def)
    then have copy: "copy_of_arc (heap st') ip op ?a' a"
      by (rule copy_of_arc_mono [OF le])
    have 1: "delimiter_arcs mi delim ip op s (a # as) (st, seeds) =
               Inr (st', seeds_of_arcs mi delim (a # as) seeds)"
      using True i1 i2 add run by (simp add: seeds_of_arcs_def)
    have 2: "heap_le (heap st) (heap st')"
      using intern_at_le [OF i1] le12 le by (blast intro: heap_le_trans)
    have 3: "arcs_of (ofst st') s = arcs_of (ofst st) s @ (?a' # new)"
      using new(1) AddArc_arcs_of [OF add, of s] by simp
    have 4: "list_all2 (copy_of_arc (heap st') ip op) (?a' # new)
               (filter (\<lambda>a. match_label mi a \<in> delim) (a # as))"
      using True copy new(2) by simp
    have 5: "\<forall>t. t \<noteq> s \<longrightarrow> arcs_of (ofst st') t = arcs_of (ofst st) t"
      using other AddArc_arcs_of [OF add] by simp
    from 1 2 3 4 5 st fin AddArc_start [OF add] AddArc_final [OF add] show ?thesis
      by (intro exI [of _ st']) auto
  qed
qed

lemma arcs_of_nth: "i < length (states f) \<Longrightarrow> arcs_of f (int i) = arcs (states f ! i)"
  by (simp add: arcs_of_def state_at_def valid_state_def)

lemma copy_states_result:
  "length (states (ofst st)) = length (states ifst) \<Longrightarrow>
   \<forall>s\<in>set ss. s < length (states ifst) \<Longrightarrow> distinct ss \<Longrightarrow>
   \<exists>x'. copy_states mi delim ip op ifst ss (st, seeds) = Inr x' \<and>
        first_pass_ok mi delim ip op ifst ss (st, seeds) x'"
proof (induction ss arbitrary: st seeds)
  case Nil
  then show ?case by (simp add: first_pass_ok_def heap_le_refl)
next
  case (Cons s ss)
  let ?n = "length (states ifst)"
  let ?D = "\<lambda>a. match_label mi a \<in> delim"
  from Cons.prems have s: "s < ?n" and notin: "s \<notin> set ss" by auto
  then have valid: "valid_state (ofst st) (int s)"
    using Cons.prems(1) by (simp add: valid_state_def)
  from SetFinal_Some [OF valid] obtain f where
    setf: "SetFinal (ofst st) (int s) (final (states ifst ! s)) = Some f" by blast
  let ?st0 = "st\<lparr>ofst := f\<rparr>"
  have len0: "length (states f) = ?n"
    using SetFinal_length [OF setf] Cons.prems(1) by simp
  then have valid0: "valid_state (ofst ?st0) (int s)"
    using s by (simp add: valid_state_def)
  from delimiter_arcs_result [OF valid0, of mi delim ip op "arcs (states ifst ! s)" seeds]
  obtain st1 new1 where
    d: "delimiter_arcs mi delim ip op (int s) (arcs (states ifst ! s)) (?st0, seeds) =
          Inr (st1, seeds_of_arcs mi delim (arcs (states ifst ! s)) seeds)" and
    le1: "heap_le (heap st) (heap st1)" and
    start1: "start (ofst st1) = start f" and
    fin1: "map final (states (ofst st1)) = map final (states f)" and
    new1: "arcs_of (ofst st1) (int s) = arcs_of f (int s) @ new1"
          "list_all2 (copy_of_arc (heap st1) ip op) new1 (filter ?D (arcs (states ifst ! s)))" and
    other1: "\<forall>t. t \<noteq> int s \<longrightarrow> arcs_of (ofst st1) t = arcs_of f t"
    by auto
  let ?seeds1 = "seeds_of_arcs mi delim (arcs (states ifst ! s)) seeds"
  from fin1 have len1: "length (states (ofst st1)) = ?n"
    using len0 by (metis length_map)
  from Cons.prems have "\<forall>s\<in>set ss. s < ?n" "distinct ss" by auto
  from Cons.IH [OF len1 this, of ?seeds1] obtain st2 seeds2 where
    c: "copy_states mi delim ip op ifst ss (st1, ?seeds1) = Inr (st2, seeds2)" and
    ok: "first_pass_ok mi delim ip op ifst ss (st1, ?seeds1) (st2, seeds2)"
    by auto
  have run: "copy_states mi delim ip op ifst (s # ss) (st, seeds) = Inr (st2, seeds2)"
    using setf d c by simp
  from ok have le2: "heap_le (heap st1) (heap st2)"
    by (simp add: first_pass_ok_def)
  have fin: "final (states (ofst st2) ! i) =
        (if i \<in> set (s # ss) then final (states ifst ! i) else final (states (ofst st) ! i))"
    if "i < ?n" for i
  proof -
    have "final (states (ofst st1) ! i) = final (states f ! i)"
      using fin1 that len0 len1 by (metis nth_map)
    also have "\<dots> = (if int i = int s then final (states ifst ! s) else final (states (ofst st) ! i))"
      using SetFinal_final [OF setf, of i] that Cons.prems(1) by simp
    finally show ?thesis
      using ok that by (auto simp: first_pass_ok_def)
  qed
  have arcs: "\<exists>new. arcs_of (ofst st2) t = arcs_of (ofst st) t @ new \<and>
               list_all2 (copy_of_arc (heap st2) ip op) new
                 (if t \<in> int ` set (s # ss) then filter ?D (arcs_of ifst t) else [])" for t
  proof -
    from ok have "\<forall>t. \<exists>new. arcs_of (ofst st2) t = arcs_of (ofst st1) t @ new \<and>
        list_all2 (copy_of_arc (heap st2) ip op) new
          (if t \<in> int ` set ss then filter ?D (arcs_of ifst t) else [])"
      by (simp add: first_pass_ok_def)
    then obtain new2 where new2: "arcs_of (ofst st2) t = arcs_of (ofst st1) t @ new2"
      "list_all2 (copy_of_arc (heap st2) ip op) new2
         (if t \<in> int ` set ss then filter ?D (arcs_of ifst t) else [])"
      by blast
    show ?thesis
    proof (cases "t = int s")
      case True
      with notin have "t \<notin> int ` set ss" by auto
      with new2 have "new2 = []" by simp
      with new2(1) new1(1) True SetFinal_arcs_of [OF setf, of t]
      have "arcs_of (ofst st2) t = arcs_of (ofst st) t @ new1" by simp
      moreover have "list_all2 (copy_of_arc (heap st2) ip op) new1 (filter ?D (arcs_of ifst t))"
        using new1(2) True arcs_of_nth [OF s] copy_of_arc_mono [OF le2]
        by (auto elim!: list_all2_mono)
      ultimately show ?thesis using True by auto
    next
      case False
      with other1 SetFinal_arcs_of [OF setf, of t] new2(1)
      have "arcs_of (ofst st2) t = arcs_of (ofst st) t @ new2" by simp
      with new2(2) False show ?thesis by auto
    qed
  qed
  have seeds: "set seeds2 = set seeds \<union>
          (\<Union>t\<in>set (s # ss). nextstate ` {a \<in> set (arcs (states ifst ! t)). ?D a})"
  proof -
    from ok have "set seeds2 = set ?seeds1 \<union>
          (\<Union>t\<in>set ss. nextstate ` {a \<in> set (arcs (states ifst ! t)). ?D a})"
      by (simp add: first_pass_ok_def)
    then show ?thesis
      by (simp add: set_seeds_of_arcs Un_assoc)
  qed
  have dist: "distinct seeds \<longrightarrow> distinct seeds2"
    using ok distinct_seeds_of_arcs [of seeds mi delim "arcs (states ifst ! s)"]
    by (simp add: first_pass_ok_def)
  have "first_pass_ok mi delim ip op ifst (s # ss) (st, seeds) (st2, seeds2)"
    unfolding first_pass_ok_def prod.case
    using heap_le_trans [OF le1 le2] ok start1 SetFinal_start [OF setf] len1 Cons.prems(1)
      fin arcs seeds dist
    by (simp add: first_pass_ok_def)
  with run show ?case by blast
qed

lemma delimiter_targets_eq:
  "delimiter_targets mi delim f =
     (\<Union>s\<in>set [0..<length (states f)].
        nextstate ` {a \<in> set (arcs (states f ! s)). match_label mi a \<in> delim})"
proof (intro set_eqI iffI)
  fix x assume "x \<in> delimiter_targets mi delim f"
  then obtain s a where x: "x = nextstate a" "a \<in> set (arcs_of f s)" "match_label mi a \<in> delim"
    by (auto simp: delimiter_targets_def)
  from x(2) have v: "valid_state f s"
    by (auto simp: arcs_of_def state_at_def split: if_splits)
  then have "nat s < length (states f)" by (auto simp: valid_state_def)
  moreover from x(2) v have "a \<in> set (arcs (states f ! nat s))"
    by (simp add: arcs_of_def state_at_def)
  ultimately show "x \<in> (\<Union>s\<in>set [0..<length (states f)].
        nextstate ` {a \<in> set (arcs (states f ! s)). match_label mi a \<in> delim})"
    using x(1,3) by auto
next
  fix x assume "x \<in> (\<Union>s\<in>set [0..<length (states f)].
        nextstate ` {a \<in> set (arcs (states f ! s)). match_label mi a \<in> delim})"
  then obtain i a where i: "i < length (states f)" "a \<in> set (arcs (states f ! i))"
    "match_label mi a \<in> delim" "x = nextstate a" by auto
  then have "a \<in> set (arcs_of f (int i))" by (simp add: arcs_of_nth)
  with i show "x \<in> delimiter_targets mi delim f"
    unfolding delimiter_targets_def by blast
qed

lemma arcs_of_replicate:
  "arcs_of \<lparr>start = q, states = replicate n \<lparr>final = z, arcs = []\<rparr>\<rparr> s = []"
  by (auto simp: arcs_of_def state_at_def valid_state_def nat_less_iff)

lemma arcs_of_invalid: "\<not> valid_state f s \<Longrightarrow> arcs_of f s = []"
  by (simp add: arcs_of_def state_at_def)

lemma expand_init_result:
  "\<exists>st seeds.
     expand_init W iter mi ifst delim ip op h =
       Inr \<lparr>stack = rev (map (\<lambda>s. (s, s, One W, [], [])) (iter seeds)), store = st\<rparr> \<and>
     distinct seeds \<and>
     set seeds = insert (start ifst) (delimiter_targets mi delim ifst) \<and>
     heap_le h (heap st) \<and>
     start (ofst st) = start ifst \<and>
     map final (states (ofst st)) = map final (states ifst) \<and>
     (\<forall>s. list_all2 (copy_of_arc (heap st) ip op) (arcs_of (ofst st) s)
            (filter (\<lambda>a. match_label mi a \<in> delim) (arcs_of ifst s)))"
proof -
  let ?n = "length (states ifst)"
  let ?h2 = "reserve_epsilon_at (reserve_epsilon_at h ip) op"
  let ?f0 = "\<lparr>start = start ifst, states = replicate ?n \<lparr>final = Zero W, arcs = []\<rparr>\<rparr>"
  let ?st0 = "\<lparr>ofst = ?f0, heap = ?h2\<rparr>"
  let ?seeds0 = "uset_insert [] (start ifst)"
  have len: "length (states (ofst ?st0)) = ?n" by simp
  have "\<forall>s\<in>set [0..<?n]. s < ?n" "distinct [0..<?n]" by auto
  from copy_states_result [OF len this, of mi delim ip op ?seeds0] obtain st seeds where
    run: "copy_states mi delim ip op ifst [0..<?n] (?st0, ?seeds0) = Inr (st, seeds)" and
    ok: "first_pass_ok mi delim ip op ifst [0..<?n] (?st0, ?seeds0) (st, seeds)"
    by auto
  have init: "expand_init W iter mi ifst delim ip op h =
       Inr \<lparr>stack = rev (map (\<lambda>s. (s, s, One W, [], [])) (iter seeds)), store = st\<rparr>"
    using run by (simp add: expand_init_def)
  from ok have "distinct seeds"
    by (simp add: first_pass_ok_def uset_insert_def)
  moreover from ok have "set seeds = insert (start ifst) (delimiter_targets mi delim ifst)"
    unfolding delimiter_targets_eq by (simp add: first_pass_ok_def uset_insert_def)
  moreover have "heap_le h (heap st)"
  proof -
    have "heap_le h ?h2"
      by (blast intro: heap_le_trans reserve_epsilon_at_le)
    moreover from ok have "heap_le ?h2 (heap st)" by (simp add: first_pass_ok_def)
    ultimately show ?thesis by (rule heap_le_trans)
  qed
  moreover from ok have "start (ofst st) = start ifst"
    by (simp add: first_pass_ok_def)
  moreover have "map final (states (ofst st)) = map final (states ifst)"
  proof (rule nth_equalityI)
    from ok show "length (map final (states (ofst st))) = length (map final (states ifst))"
      by (simp add: first_pass_ok_def)
  next
    fix i assume "i < length (map final (states (ofst st)))"
    with ok show "map final (states (ofst st)) ! i = map final (states ifst) ! i"
      by (simp add: first_pass_ok_def)
  qed
  moreover have "list_all2 (copy_of_arc (heap st) ip op) (arcs_of (ofst st) s)
            (filter (\<lambda>a. match_label mi a \<in> delim) (arcs_of ifst s))" for s
  proof -
    from ok have "\<forall>s. \<exists>new. arcs_of (ofst st) s = arcs_of ?f0 s @ new \<and>
               list_all2 (copy_of_arc (heap st) ip op) new
                 (if s \<in> int ` set [0..<?n]
                  then filter (\<lambda>a. match_label mi a \<in> delim) (arcs_of ifst s) else [])"
      by (simp add: first_pass_ok_def)
    then obtain new where new: "arcs_of (ofst st) s = arcs_of ?f0 s @ new"
      "list_all2 (copy_of_arc (heap st) ip op) new
                 (if s \<in> int ` set [0..<?n]
                  then filter (\<lambda>a. match_label mi a \<in> delim) (arcs_of ifst s) else [])"
      by blast
    show ?thesis
    proof (cases "valid_state ifst s")
      case True
      then have "s \<in> int ` set [0..<?n]"
        by (auto simp: valid_state_def image_iff intro: bexI [of _ "nat s"])
      with new show ?thesis by (simp add: arcs_of_replicate)
    next
      case False
      then have "s \<notin> int ` set [0..<?n]" by (auto simp: valid_state_def)
      with new False show ?thesis by (simp add: arcs_of_replicate arcs_of_invalid)
    qed
  qed
  ultimately have "expand_init W iter mi ifst delim ip op h =
       Inr \<lparr>stack = rev (map (\<lambda>s. (s, s, One W, [], [])) (iter seeds)), store = st\<rparr> \<and>
     distinct seeds \<and>
     set seeds = insert (start ifst) (delimiter_targets mi delim ifst) \<and>
     heap_le h (heap st) \<and>
     start (ofst st) = start ifst \<and>
     map final (states (ofst st)) = map final (states ifst) \<and>
     (\<forall>s. list_all2 (copy_of_arc (heap st) ip op) (arcs_of (ofst st) s)
            (filter (\<lambda>a. match_label mi a \<in> delim) (arcs_of ifst s)))"
    using init by simp
  then show ?thesis by (intro exI)
qed

lemma expand_search_cases:
  assumes "expand_search W iter mi ifst delim M ip op h fuel = Some (Inr st)"
  shows "\<exists>c0 c'. expand_init W iter mi ifst delim ip op h = Inr c0 \<and>
           run_steps W mi ifst delim M ip op fuel c0 = Inr c' \<and> stack c' = [] \<and> store c' = st"
  using assms
  by (auto simp: expand_search_def expand_loop_def split: sum.splits option.splits if_splits)

subsection \<open>More fuel does not change the result\<close>

lemma run_steps_empty: "stack c = [] \<Longrightarrow> run_steps W mi ifst delim M ip op k c = Inr c"
  by (cases k) auto

lemma run_steps_add:
  "run_steps W mi ifst delim M ip op (k + m) c =
     (case run_steps W mi ifst delim M ip op k c of
        Inl e \<Rightarrow> Inl e
      | Inr c' \<Rightarrow> run_steps W mi ifst delim M ip op m c')"
proof (induction k arbitrary: c)
  case 0
  show ?case by simp
next
  case (Suc k)
  show ?case
  proof (cases "stack c = []")
    case True
    then show ?thesis by (simp add: run_steps_empty)
  next
    case False
    with Suc show ?thesis by (simp split: sum.splits)
  qed
qed

lemma expand_loop_more_fuel:
  assumes "expand_loop W mi ifst delim M ip op k c = Some r"
  shows "expand_loop W mi ifst delim M ip op (k + m) c = Some r"
  using assms
  by (auto simp: expand_loop_def run_steps_add run_steps_empty split: sum.splits if_splits)

lemma expand_search_more_fuel:
  assumes "expand_search W iter mi ifst delim M ip op h k = Some r"
  shows "expand_search W iter mi ifst delim M ip op h (k + m) = Some r"
proof (cases "expand_init W iter mi ifst delim ip op h")
  case (Inl e)
  with assms show ?thesis by (simp add: expand_search_def)
next
  case (Inr c)
  with assms obtain r' where r': "expand_loop W mi ifst delim M ip op k c = Some r'"
    by (auto simp: expand_search_def split: option.splits)
  from expand_loop_more_fuel [OF r', of m] r' assms Inr show ?thesis
    by (simp add: expand_search_def)
qed

lemma ExpandFst_more_fuel:
  assumes "ExpandFst W iter mi ifst delim M ip op h k = Some r"
  shows "ExpandFst W iter mi ifst delim M ip op h (k + m) = Some r"
proof -
  from assms obtain r' where r': "expand_search W iter mi ifst delim M ip op h k = Some r'"
    by (auto simp: ExpandFst_def split: option.splits)
  from expand_search_more_fuel [OF r', of m] r' assms show ?thesis
    by (simp add: ExpandFst_def)
qed

subsection \<open>The worked example\<close>

lemma mset_two_cases:
  assumes "mset xs = mset [a, b]"
  shows "xs = [a, b] \<or> xs = [b, a]"
proof -
  from assms have len: "length xs = 2" by (metis length_Cons list.size(3) mset_eq_length numeral_2_eq_2)
  then obtain x y where xs: "xs = [x, y]"
    by (metis (no_types, opaque_lifting) One_nat_def Suc_1 length_0_conv length_Suc_conv)
  from assms have "set xs = {a, b}" by (metis list.set(1) list.simps(15) mset_eq_setD)
  with xs assms show ?thesis
    by (auto simp: add_eq_conv_ex)
qed

lemmas expand_eval =
  expand_step_def state_at_def valid_state_def insert_map_def intern_at_def intern_def
  label_of_size_def
  push_back_nonzero_def match_label_def AddArc_def SetFinal_def size_t_of_int32_def
  uset_insert_def reserve_epsilon_at_def reserve_epsilon_def

lemma chain_expand_init:
  "expand_init W iter False (chain_fst W w1 w2 w3) {3} 0 0 (\<lambda>_. []) =
     Inr \<lparr>stack = rev (map (\<lambda>s. (s, s, One W, [], [])) (iter [0, 3])),
          store = \<lparr>ofst = \<lparr>start = 0,
                            states = [\<lparr>final = Zero W, arcs = []\<rparr>,
                                      \<lparr>final = Zero W, arcs = []\<rparr>,
                                      \<lparr>final = Zero W, arcs = [Arc 1 1 w3 3]\<rparr>,
                                      \<lparr>final = One W, arcs = []\<rparr>]\<rparr>,
                    heap = (\<lambda>_. [])(0 := [([], 0), ([3], 1)])\<rparr>\<rparr>"
  by (simp add: expand_init_def chain_fst_def expand_eval upt_conv_Cons del: upt.simps)

lemma chain_expand_search:
  assumes "mset (iter [0, 3]) = mset [0, 3]" and "One W \<noteq> Zero W"
  shows "expand_search W iter False (chain_fst W w1 w2 w3) {3} 10 0 0 (\<lambda>_. []) 4 =
           Some (Inr \<lparr>ofst = chain_ofst W w1 w2 w3, heap = chain_heap\<rparr>)"
proof -
  from mset_two_cases [OF assms(1)] show ?thesis
  proof
    assume "iter [0, 3] = [0, 3]"
    then show ?thesis
      using assms(2)
      apply (simp add: expand_search_def chain_expand_init expand_loop_def numeral_eq_Suc)
      apply (simp add: chain_fst_def expand_eval chain_ofst_def chain_heap_def)
      done
  next
    assume "iter [0, 3] = [3, 0]"
    then show ?thesis
      using assms(2)
      apply (simp add: expand_search_def chain_expand_init expand_loop_def numeral_eq_Suc)
      apply (simp add: chain_fst_def expand_eval chain_ofst_def chain_heap_def)
      done
  qed
qed

lemma chain_Connect:
  assumes "One W \<noteq> Zero W"
  shows "Connect W (chain_ofst W w1 w2 w3) =
     \<lparr>t_start = 0,
      t_states = [(0, \<lparr>final = Zero W, arcs = [Arc 2 2 (Times W (Times W (One W) w1) w2) 2]\<rparr>),
                  (2, \<lparr>final = Zero W, arcs = [Arc 1 1 w3 3]\<rparr>),
                  (3, \<lparr>final = One W, arcs = []\<rparr>)]\<rparr>"
  using assms
  by (simp add: Connect_def chain_ofst_def all_states_def accessible_states_def
      coaccessible_states_def forward_step_def backward_step_def arcs_of_def state_at_def
      valid_state_def upt_conv_Cons del: upt.simps)

lemma string_of_nat_numeral:
  "string_of_nat (numeral k) =
     (if (numeral k :: nat) < 10 then [digit_char (numeral k)]
      else string_of_nat (numeral k div 10) @ [digit_char (numeral k mod 10)])"
  by (rule string_of_nat.simps)

lemma string_of_nat_0: "string_of_nat 0 = ''0''"
  by (simp add: string_of_nat.simps [of 0] digit_char_def)

lemma string_of_nat_1: "string_of_nat (Suc 0) = ''1''"
  by (simp add: string_of_nat.simps [of "Suc 0"] digit_char_def)

lemma string_of_int_numeral: "string_of_int (numeral k) = string_of_nat (numeral k)"
  by (simp add: string_of_int_def)

lemma string_of_int_neg_numeral:
  "string_of_int (- numeral k) = CHR ''-'' # string_of_nat (numeral k)"
  by (simp add: string_of_int_def)

lemma string_of_int_0: "string_of_int 0 = ''0''"
  by (simp add: string_of_int_def string_of_nat_0)

lemma string_of_int_1: "string_of_int 1 = ''1''"
  by (simp add: string_of_int_def string_of_nat_1)

lemmas symbols_eval =
  MapToSymbolsTable_def sort_pairs_def symbol_name_def pair_less_def AddSymbol_def
  string_of_int_numeral string_of_int_neg_numeral string_of_int_0 string_of_int_1
  string_of_nat_numeral string_of_nat_0 string_of_nat_1 digit_char_def

lemma symbol_name_example: "symbol_name [12, - 3, 405] = ''12_-3_405''"
  by (simp add: symbols_eval)

lemma chain_symbols:
  "MapToSymbolsTable [([], 0), ([3], 1), ([1, 2], 2)] [] =
     Inr [(0, ''0''), (1, ''3''), (2, ''1_2'')]"
  by (simp add: symbols_eval)

text \<open>
  C2. The worked example, over any semiring whose \<open>One\<close> is a left identity of \<open>Times\<close>
  and differs from \<open>Zero\<close>, for any iteration order of the word-start set, with the
  driver's shared, initially empty interner: the output automaton keeps the states 0
  (start), 2 and 3 (final, weight \<open>One\<close>), with the arc \<open>0 \<rightarrow> 2\<close> labelled by the id of
  \<open>[1, 2]\<close> and weighted \<open>Times w1 w2\<close>, and the arc \<open>2 \<rightarrow> 3\<close> labelled by the id of \<open>[3]\<close>
  and weighted \<open>w3\<close>; the symbol table names id 0 \<open>0\<close>, the id of \<open>[1, 2]\<close> \<open>1_2\<close> and the
  id of \<open>[3]\<close> \<open>3\<close>.
\<close>

theorem worked_example:
  assumes "\<forall>xs. mset (iter xs) = mset xs"
    and "\<forall>w. Times W (One W) w = w"
    and "One W \<noteq> Zero W"
  shows "\<exists>h. ExpandFst W iter False (chain_fst W w1 w2 w3) {3} 10 0 0 (\<lambda>_. []) (4 + m) =
           Some (Inr (\<lparr>t_start = 0,
                       t_states =
                         [(0, \<lparr>final = Zero W,
                               arcs = [Arc (lookup_id (h 0) [1, 2]) (lookup_id (h 0) [1, 2])
                                         (Times W w1 w2) 2]\<rparr>),
                          (2, \<lparr>final = Zero W,
                               arcs = [Arc (lookup_id (h 0) [3]) (lookup_id (h 0) [3]) w3 3]\<rparr>),
                          (3, \<lparr>final = One W, arcs = []\<rparr>)]\<rparr>, h))
         \<and> MapToSymbolsTable (h 0) [] =
             Inr [(0, ''0''), (lookup_id (h 0) [3], ''3''), (lookup_id (h 0) [1, 2], ''1_2'')]"
proof -
  from assms(1) have "mset (iter [0, 3]) = mset [0, 3]" by blast
  from chain_expand_search [where iter = iter and W = W, OF this assms(3), of w1 w2 w3]
  have "ExpandFst W iter False (chain_fst W w1 w2 w3) {3} 10 0 0 (\<lambda>_. []) 4 =
          Some (Inr (Connect W (chain_ofst W w1 w2 w3), chain_heap))"
    by (simp add: ExpandFst_def)
  from ExpandFst_more_fuel [OF this, of m]
  have "ExpandFst W iter False (chain_fst W w1 w2 w3) {3} 10 0 0 (\<lambda>_. []) (4 + m) =
          Some (Inr (Connect W (chain_ofst W w1 w2 w3), chain_heap))" .
  moreover have "lookup_id (chain_heap 0) [1, 2] = 2" "lookup_id (chain_heap 0) [3] = 1"
    by (simp_all add: chain_heap_def lookup_id_def)
  moreover have "chain_heap 0 = [([], 0), ([3], 1), ([1, 2], 2)]"
    by (simp add: chain_heap_def)
  ultimately show ?thesis
    using assms(2) chain_Connect [OF assms(3), of w1 w2 w3] chain_symbols
    by (intro exI [of _ chain_heap]) simp
qed

theorem worked_example_witness:
  "\<exists>h. ExpandFst tropical rev False (chain_fst tropical 5 6 7) {3} 10 0 0 (\<lambda>_. []) 4 =
           Some (Inr (\<lparr>t_start = 0,
                       t_states =
                         [(0, \<lparr>final = \<infinity>,
                               arcs = [Arc (lookup_id (h 0) [1, 2]) (lookup_id (h 0) [1, 2]) 11 2]\<rparr>),
                          (2, \<lparr>final = \<infinity>,
                               arcs = [Arc (lookup_id (h 0) [3]) (lookup_id (h 0) [3]) 7 3]\<rparr>),
                          (3, \<lparr>final = 0, arcs = []\<rparr>)]\<rparr>, h))
         \<and> MapToSymbolsTable (h 0) [] =
             Inr [(0, ''0''), (lookup_id (h 0) [3], ''3''), (lookup_id (h 0) [1, 2], ''1_2'')]"
proof -
  have 1: "\<forall>xs::int list. mset (rev xs) = mset xs" by simp
  have 2: "\<forall>w. Times tropical (One tropical) w = w" by (simp add: tropical_def)
  have 3: "One tropical \<noteq> Zero tropical" by (simp add: tropical_def)
  from worked_example [OF 1 2 3, of 5 6 7 0] show ?thesis
    by (simp add: tropical_def)
qed

lemma expand_search_shape:
  assumes "expand_search W iter mi ifst delim M ip op h fuel = Some (Inr st)"
  shows "map final (states (ofst st)) = map final (states ifst)"
    and "length (states (ofst st)) = length (states ifst)"
    and "start (ofst st) = start ifst"
proof -
  from expand_search_cases [OF assms] obtain c0 c' where
    init: "expand_init W iter mi ifst delim ip op h = Inr c0" and
    run: "run_steps W mi ifst delim M ip op fuel c0 = Inr c'" and
    st: "store c' = st" by blast
  from expand_init_result [of W iter mi ifst delim ip op h] init
  have s0: "start (ofst (store c0)) = start ifst"
    and f0: "map final (states (ofst (store c0))) = map final (states ifst)"
    by auto
  have "search_extends (\<lambda>e. True) W mi ifst delim ip op (store c0) (store c')"
    using run_steps_extends [where Q = "\<lambda>e. True", OF _ _ run] by simp
  with st have s1: "start (ofst st) = start (ofst (store c0))"
    and f1: "map final (states (ofst st)) = map final (states (ofst (store c0)))"
    by (auto simp: search_extends_def)
  from f0 f1 show fin: "map final (states (ofst st)) = map final (states ifst)" by simp
  then show "length (states (ofst st)) = length (states ifst)"
    by (metis length_map)
  from s0 s1 show "start (ofst st) = start ifst" by simp
qed

lemma chain_expand_search_tropical:
  "expand_search tropical rev False (chain_fst tropical 5 6 7) {3} 10 0 0 (\<lambda>_. []) 4 =
     Some (Inr \<lparr>ofst = chain_ofst tropical 5 6 7, heap = chain_heap\<rparr>)"
  by (rule chain_expand_search [where iter = rev]) (simp_all add: tropical_def)

subsection \<open>The delimiter arcs and the word-start states\<close>

text \<open>
  C5. After the first pass, the arcs of every state of the output automaton are, in
  order, one copy of each arc of the same source state whose matched label is a
  delimiter: same end state, same weight, input label the id of \<open>[ilabel]\<close> (of the
  empty sequence when \<open>ilabel = 0\<close>) and the same for the output label. The stack
  holds exactly one entry \<open>(q, q, One, [], [])\<close> for the start state and for each end
  state of a delimiter arc. When the search returns, these copies are still the first
  arcs of their states, and the final interner still gives them these ids.
\<close>

theorem delimiter_pass_through:
  assumes "\<forall>xs. mset (iter xs) = mset xs"
  shows "\<exists>c0. expand_init W iter mi ifst delim ip op h = Inr c0
    \<and> (\<forall>s. list_all2 (copy_of_arc (heap (store c0)) ip op) (arcs_of (ofst (store c0)) s)
              (filter (\<lambda>a. match_label mi a \<in> delim) (arcs_of ifst s)))
    \<and> mset (stack c0) =
        image_mset (\<lambda>q. (q, q, One W, [], []))
          (mset_set (insert (start ifst) (delimiter_targets mi delim ifst)))
    \<and> (\<forall>fuel st s. expand_search W iter mi ifst delim M ip op h fuel = Some (Inr st) \<longrightarrow>
          (\<exists>found. arcs_of (ofst st) s = arcs_of (ofst (store c0)) s @ found) \<and>
          list_all2 (copy_of_arc (heap st) ip op) (arcs_of (ofst (store c0)) s)
            (filter (\<lambda>a. match_label mi a \<in> delim) (arcs_of ifst s)))"
proof -
  let ?D = "\<lambda>a. match_label mi a \<in> delim"
  from expand_init_result [of W iter mi ifst delim ip op h] obtain st0 seeds where
    init: "expand_init W iter mi ifst delim ip op h =
             Inr \<lparr>stack = rev (map (\<lambda>s. (s, s, One W, [], [])) (iter seeds)), store = st0\<rparr>" and
    dist: "distinct seeds" and
    seeds: "set seeds = insert (start ifst) (delimiter_targets mi delim ifst)" and
    copies: "\<forall>s. list_all2 (copy_of_arc (heap st0) ip op) (arcs_of (ofst st0) s)
                  (filter ?D (arcs_of ifst s))"
    by blast
  let ?c0 = "\<lparr>stack = rev (map (\<lambda>s. (s, s, One W, [], [])) (iter seeds)), store = st0\<rparr>"
  have "mset (iter seeds) = mset seeds" using assms by blast
  also have "\<dots> = mset_set (set seeds)" using dist by (simp only: mset_set_set)
  finally have "mset (iter seeds) =
      mset_set (insert (start ifst) (delimiter_targets mi delim ifst))"
    by (simp only: seeds)
  then have stack: "mset (stack ?c0) =
      image_mset (\<lambda>q. (q, q, One W, [], []))
        (mset_set (insert (start ifst) (delimiter_targets mi delim ifst)))"
    by (simp only: config.simps mset_rev mset_map)
  have later: "(\<exists>found. arcs_of (ofst st) s = arcs_of (ofst st0) s @ found) \<and>
          list_all2 (copy_of_arc (heap st) ip op) (arcs_of (ofst st0) s)
            (filter ?D (arcs_of ifst s))"
    if "expand_search W iter mi ifst delim M ip op h fuel = Some (Inr st)" for fuel st s
  proof -
    from expand_search_cases [OF that] init obtain c' where
      run: "run_steps W mi ifst delim M ip op fuel ?c0 = Inr c'" and st: "store c' = st"
      by auto
    have ext: "search_extends (\<lambda>e. True) W mi ifst delim ip op st0 st"
      using run_steps_extends [where Q = "\<lambda>e. True", OF _ _ run] st by simp
    then have "\<exists>found. arcs_of (ofst st) s = arcs_of (ofst st0) s @ found"
      unfolding search_extends_def by blast
    moreover from ext have "heap_le (heap st0) (heap st)"
      by (simp add: search_extends_def)
    with copies have "list_all2 (copy_of_arc (heap st) ip op) (arcs_of (ofst st0) s)
            (filter ?D (arcs_of ifst s))"
      using copy_of_arc_mono by (blast intro: list_all2_mono)
    ultimately show ?thesis by blast
  qed
  show ?thesis
  proof (intro exI [of _ ?c0] conjI allI impI)
    show "expand_init W iter mi ifst delim ip op h = Inr ?c0" by (rule init)
    show "list_all2 (copy_of_arc (heap (store ?c0)) ip op) (arcs_of (ofst (store ?c0)) s)
              (filter ?D (arcs_of ifst s))" for s
      using copies by simp
    show "mset (stack ?c0) =
        image_mset (\<lambda>q. (q, q, One W, [], []))
          (mset_set (insert (start ifst) (delimiter_targets mi delim ifst)))"
      by (rule stack)
    show "\<exists>found. arcs_of (ofst st) s = arcs_of (ofst (store ?c0)) s @ found"
      if "expand_search W iter mi ifst delim M ip op h fuel = Some (Inr st)" for fuel st s
      using later [OF that, of s] by simp
    show "list_all2 (copy_of_arc (heap st) ip op) (arcs_of (ofst (store ?c0)) s)
            (filter ?D (arcs_of ifst s))"
      if "expand_search W iter mi ifst delim M ip op h fuel = Some (Inr st)" for fuel st s
      using later [OF that, of s] by simp
  qed
qed

theorem delimiter_pass_through_witness:
  "list_all2 (copy_of_arc ((\<lambda>_. [])(0 := [([], 0), ([3], 1)])) 0 0)
     [Arc 1 1 7 3] [Arc 3 3 (7::enat) 3]
   \<and> mset [(0, 0, 0::enat, []::int list, []::int list), (3, 3, 0, [], [])] =
       image_mset (\<lambda>q. (q, q, 0, [], []))
         (mset_set (insert 0 (delimiter_targets False {3} (chain_fst tropical 5 6 7))))"
proof -
  have iter: "\<forall>xs::int list. mset (rev xs) = mset xs" by simp
  let ?c0 = "\<lparr>stack = [(0, 0, 0::enat, [], []), (3, 3, 0, [], [])],
          store = \<lparr>ofst = \<lparr>start = 0,
                            states = [\<lparr>final = \<infinity>, arcs = []\<rparr>,
                                      \<lparr>final = \<infinity>, arcs = []\<rparr>,
                                      \<lparr>final = \<infinity>, arcs = [Arc 1 1 7 3]\<rparr>,
                                      \<lparr>final = 0, arcs = []\<rparr>]\<rparr>,
                    heap = (\<lambda>_. [])(0 := [([], 0), ([3], 1)])\<rparr>\<rparr>"
  have init: "expand_init tropical rev False (chain_fst tropical 5 6 7) {3} 0 0 (\<lambda>_. []) = Inr ?c0"
    by (simp add: chain_expand_init) (simp add: tropical_def)
  from delimiter_pass_through [OF iter, of tropical False "chain_fst tropical 5 6 7" "{3}" 0 0
      "\<lambda>_. []" 10]
  obtain c0 where
    c0: "expand_init tropical rev False (chain_fst tropical 5 6 7) {3} 0 0 (\<lambda>_. []) = Inr c0" and
    copies: "\<forall>s. list_all2 (copy_of_arc (heap (store c0)) 0 0) (arcs_of (ofst (store c0)) s)
              (filter (\<lambda>a. match_label False a \<in> {3}) (arcs_of (chain_fst tropical 5 6 7) s))" and
    stack: "mset (stack c0) =
        image_mset (\<lambda>q. (q, q, One tropical, [], []))
          (mset_set (insert (start (chain_fst tropical 5 6 7))
             (delimiter_targets False {3} (chain_fst tropical 5 6 7))))"
    by blast
  from c0 init have eq: "c0 = ?c0" by simp
  from copies have "list_all2 (copy_of_arc (heap (store c0)) 0 0) (arcs_of (ofst (store c0)) 2)
              (filter (\<lambda>a. match_label False a \<in> {3}) (arcs_of (chain_fst tropical 5 6 7) 2))"
    by blast
  then have 1: "list_all2 (copy_of_arc ((\<lambda>_. [])(0 := [([], 0), ([3], 1)])) 0 0)
     [Arc 1 1 7 3] [Arc 3 3 (7::enat) 3]"
    unfolding eq
    by (simp add: arcs_of_def state_at_def valid_state_def chain_fst_def match_label_def)
  from stack have 2: "mset [(0, 0, 0::enat, []::int list, []::int list), (3, 3, 0, [], [])] =
       image_mset (\<lambda>q. (q, q, 0, [], []))
         (mset_set (insert 0 (delimiter_targets False {3} (chain_fst tropical 5 6 7))))"
    unfolding eq by (simp add: tropical_def chain_fst_def)
  from 1 2 show ?thesis by blast
qed

subsection \<open>The delimiter argument of the driver\<close>

lemma parse_delimiters_eq:
  "parse_delimiters xs ds = (if 0 \<in> set xs then Inl EpsilonDelimiter else Inr (set xs \<union> ds))"
  by (induction xs arbitrary: ds) auto

text \<open>
  C10. If the labels read from the delimiter argument contain 0, \<open>main\<close> reports the
  configuration error and returns 1 with no lattice written, before the loop over the
  lattices is entered. If they do not contain 0, parsing succeeds with exactly these
  labels as the delimiter set, the epsilon error is not reported, and (with three
  arguments and positive scales) whatever \<open>main\<close> returns is the outcome of the loop
  over the lattices with this delimiter set.
\<close>

theorem epsilon_delimiter_is_fatal:
  "(0 \<in> set delimiter_arg \<longrightarrow>
      parse_delimiters delimiter_arg {} = Inl EpsilonDelimiter \<and>
      main W iter fuel K opts 3 delimiter_arg lattices =
        Some (Inr \<lparr>exit_code = 1, reported = Some EpsilonDelimiter,
                   lattices_written = [], symbols_file = None\<rparr>))
   \<and> (0 \<notin> set delimiter_arg \<longrightarrow>
      parse_delimiters delimiter_arg {} = Inr (set delimiter_arg) \<and>
      main W iter fuel K opts 3 delimiter_arg lattices \<noteq> Some (Inr (exit_with EpsilonDelimiter)) \<and>
      (0 < graph_scale opts \<and> 0 < acoustic_scale opts \<longrightarrow>
         (\<forall>r. main W iter fuel K opts 3 delimiter_arg lattices = Some (Inr r) \<longrightarrow>
            exit_code r = 0 \<and> reported r = None \<and>
            (\<exists>label_map. lattice_loop W iter fuel K opts (set delimiter_arg) lattices [] [] =
                 Some (Inr (label_map, lattices_written r))))))"
  by (auto simp: main_def parse_delimiters_eq exit_with_def
           split: option.splits sum.splits if_splits)

lemma chain_ExpandFst_tropical:
  "ExpandFst tropical rev False (chain_fst tropical 5 6 7) {3} 2147483647 0 0 (\<lambda>_. []) 4 =
     Some (Inr (Connect tropical (chain_ofst tropical 5 6 7), chain_heap))"
proof -
  have "mset (rev [0, 3::int]) = mset [0, 3]" by simp
  from mset_two_cases [OF this] have "rev [0, 3::int] = [3, 0]" by simp
  then have "expand_search tropical rev False (chain_fst tropical 5 6 7) {3} 2147483647 0 0
      (\<lambda>_. []) 4 = Some (Inr \<lparr>ofst = chain_ofst tropical 5 6 7, heap = chain_heap\<rparr>)"
    apply (simp add: expand_search_def chain_expand_init expand_loop_def numeral_eq_Suc)
    apply (simp add: chain_fst_def expand_eval chain_ofst_def chain_heap_def tropical_def)
    done
  then show ?thesis by (simp add: ExpandFst_def)
qed

lemma chain_lattice_loop:
  "lattice_loop tropical rev 4 no_kaldi default_options {3}
          [(''utt'', chain_fst tropical 5 6 7)] [] [] =
        Some (Inr ([([], 0), ([3], 1), ([1, 2], 2)],
                   [\<lparr>lattice_key = ''utt'', olat = Connect tropical (chain_ofst tropical 5 6 7),
                     symbols = Some [(0, ''0''), (1, ''3''), (2, ''1_2'')]\<rparr>]))"
proof -
  have pre: "preprocess no_kaldi default_options lat = lat" for lat :: "enat fst"
    by (simp add: preprocess_def default_options_def)
  have opts: "save_symbols default_options = []" "max_length_opt default_options = 2147483647"
    by (simp_all add: default_options_def)
  have heap0: "chain_heap 0 = [([], 0), ([3], 1), ([1, 2], 2)]"
    by (simp add: chain_heap_def)
  show ?thesis
    by (simp add: pre opts clear_def chain_ExpandFst_tropical heap0 chain_symbols)
qed

lemma chain_main:
  "main tropical rev 4 no_kaldi default_options 3 [3] [(''utt'', chain_fst tropical 5 6 7)] =
     Some (Inr \<lparr>exit_code = 0, reported = None,
                lattices_written =
                  [\<lparr>lattice_key = ''utt'', olat = Connect tropical (chain_ofst tropical 5 6 7),
                    symbols = Some [(0, ''0''), (1, ''3''), (2, ''1_2'')]\<rparr>],
                symbols_file = None\<rparr>)"
proof -
  have opts: "save_symbols default_options = []"
    "graph_scale default_options = 1" "acoustic_scale default_options = 1"
    by (simp_all add: default_options_def)
  show ?thesis
    by (simp add: main_def opts chain_lattice_loop del: lattice_loop.simps)
qed

theorem epsilon_delimiter_is_fatal_witness:
  "main tropical rev 4 no_kaldi default_options 3 [3, 0] [(''utt'', chain_fst tropical 5 6 7)] =
     Some (Inr \<lparr>exit_code = 1, reported = Some EpsilonDelimiter,
                lattices_written = [], symbols_file = None\<rparr>)
   \<and> parse_delimiters [3] {} = Inr {3}
   \<and> (\<exists>label_map.
         lattice_loop tropical rev 4 no_kaldi default_options {3}
           [(''utt'', chain_fst tropical 5 6 7)] [] [] =
         Some (Inr (label_map,
                    [\<lparr>lattice_key = ''utt'', olat = Connect tropical (chain_ofst tropical 5 6 7),
                      symbols = Some [(0, ''0''), (1, ''3''), (2, ''1_2'')]\<rparr>])))"
proof -
  have scales: "0 < graph_scale default_options \<and> 0 < acoustic_scale default_options"
    by (simp add: default_options_def)
  from epsilon_delimiter_is_fatal [of "[3, 0]" tropical rev 4 no_kaldi default_options
      "[(''utt'', chain_fst tropical 5 6 7)]"]
  have 1: "main tropical rev 4 no_kaldi default_options 3 [3, 0]
             [(''utt'', chain_fst tropical 5 6 7)] =
     Some (Inr \<lparr>exit_code = 1, reported = Some EpsilonDelimiter,
                lattices_written = [], symbols_file = None\<rparr>)"
    by simp
  from epsilon_delimiter_is_fatal [of "[3]" tropical rev 4 no_kaldi default_options
      "[(''utt'', chain_fst tropical 5 6 7)]"] scales chain_main
  have 2: "parse_delimiters [3] {} = Inr {3}"
    and 3: "\<exists>label_map.
         lattice_loop tropical rev 4 no_kaldi default_options {3}
           [(''utt'', chain_fst tropical 5 6 7)] [] [] =
         Some (Inr (label_map,
                    [\<lparr>lattice_key = ''utt'', olat = Connect tropical (chain_ofst tropical 5 6 7),
                      symbols = Some [(0, ''0''), (1, ''3''), (2, ''1_2'')]\<rparr>]))"
    by simp_all
  from 1 2 3 show ?thesis by blast
qed

subsection \<open>Stack entries come from walks\<close>

lemma end_state_snoc: "end_state q (p @ [a]) = nextstate a"
  by (simp add: end_state_def)

lemma end_state_Cons: "end_state q (a # p) = end_state (nextstate a) p"
  by (simp add: end_state_def)

lemma is_walk_append:
  "is_walk f q (p @ r) = (is_walk f q p \<and> is_walk f (end_state q p) r)"
proof (induction p arbitrary: q)
  case Nil
  show ?case by (simp add: end_state_def)
next
  case (Cons a p)
  then show ?case by (simp add: end_state_Cons)
qed

lemma entry_of_path_Nil: "entry_of_path W q [] = (q, q, One W, [], [])"
  by (simp add: entry_of_path_def end_state_def path_weight_def path_ilabels_def
      path_olabels_def)

lemma entry_of_path_snoc:
  "entry_of_path W q0 (p @ [a]) = extend_entry W (entry_of_path W q0 p) a"
  by (simp add: entry_of_path_def extend_entry_def end_state_snoc path_weight_def
      path_ilabels_def path_olabels_def push_back_nonzero_def)

lemma fst_entry_of_path: "fst (entry_of_path W q0 p) = q0"
  by (simp add: entry_of_path_def)

lemma fst_extend_entry: "fst (extend_entry W e a) = fst e"
  by (cases e) (simp add: extend_entry_def)

lemma snd_extend_entry: "fst (snd (extend_entry W e a)) = nextstate a"
  by (cases e) (simp add: extend_entry_def)

lemma match_length_entry_of_path:
  "match_length mi (entry_of_path W q0 p) = match_count mi p"
proof -
  have "length (filter (\<lambda>l. l \<noteq> 0) (map g p)) = length (filter (\<lambda>a. g a \<noteq> 0) p)"
    for g :: "'a arc \<Rightarrow> int"
    by (induction p) auto
  then show ?thesis
    by (simp add: match_length_def entry_of_path_def path_ilabels_def path_olabels_def
        match_count_def match_label_def)
qed

lemma match_length_extend:
  "match_length mi (extend_entry W e a) =
     match_length mi e + (if match_label mi a = 0 then 0 else 1)"
  by (cases e) (simp add: match_length_def extend_entry_def push_back_nonzero_def match_label_def)

lemma pushable_iff:
  "pushable mi delim M e a =
     (match_label mi a \<notin> delim \<and>
      match_length mi e + (if match_label mi a = 0 then 0 else 1) \<le> size_t_of_int32 M)"
  by (cases e) (simp add: pushable_def match_length_def)

lemma match_count_snoc:
  "match_count mi (p @ [a]) = match_count mi p + (if match_label mi a = 0 then 0 else 1)"
  by (simp add: match_count_def)

lemma path_entry_seed: "path_entry W mi ifst delim M (q, q, One W, [], [])"
  unfolding path_entry_def
  by (rule exI [of _ "[]"]) (simp add: entry_of_path_Nil match_count_def)

lemma path_entry_extend:
  assumes "path_entry W mi ifst delim M e"
    and "a \<in> set (arcs_of ifst (fst (snd e)))"
    and "pushable mi delim M e a"
  shows "path_entry W mi ifst delim M (extend_entry W e a)"
proof -
  from assms(1) obtain p where p: "is_walk ifst (fst e) p" "e = entry_of_path W (fst e) p"
    "\<forall>a\<in>set p. match_label mi a \<notin> delim" "match_count mi p \<le> size_t_of_int32 M"
    unfolding path_entry_def by blast
  let ?q0 = "fst e"
  have q1: "fst (snd e) = end_state ?q0 p"
    by (subst p(2)) (simp add: entry_of_path_def)
  have "is_walk ifst ?q0 (p @ [a])"
    using p(1) assms(2) q1 by (simp add: is_walk_append)
  moreover have "extend_entry W e a = entry_of_path W ?q0 (p @ [a])"
    using p(2) by (simp add: entry_of_path_snoc)
  moreover have "\<forall>b\<in>set (p @ [a]). match_label mi b \<notin> delim"
    using p(3) assms(3) by (simp add: pushable_iff)
  moreover have "match_count mi (p @ [a]) \<le> size_t_of_int32 M"
  proof -
    have "match_length mi e = match_count mi p"
      by (subst p(2)) (rule match_length_entry_of_path)
    with assms(3) show ?thesis by (simp add: pushable_iff match_count_snoc)
  qed
  ultimately show ?thesis
    unfolding path_entry_def fst_extend_entry by blast
qed

lemma reachable_path_entries:
  assumes "expand_init W iter mi ifst delim ip op h = Inr c0"
    and "run_steps W mi ifst delim M ip op k c0 = Inr c"
  shows "\<forall>e\<in>set (stack c). path_entry W mi ifst delim M e"
    and "search_extends (path_entry W mi ifst delim M) W mi ifst delim ip op (store c0) (store c)"
proof -
  from expand_init_result [of W iter mi ifst delim ip op h] assms(1) obtain seeds where
    "stack c0 = rev (map (\<lambda>s. (s, s, One W, [], [])) (iter seeds))"
    by auto
  then have seeds: "\<forall>e\<in>set (stack c0). path_entry W mi ifst delim M e"
    by (auto simp: path_entry_seed)
  have closed: "path_entry W mi ifst delim M (extend_entry W e a)"
    if "path_entry W mi ifst delim M e" "a \<in> set (arcs_of ifst (fst (snd e)))"
       "pushable mi delim M e a" for e a
    using that by (rule path_entry_extend)
  from run_steps_extends [where Q = "path_entry W mi ifst delim M", OF closed seeds assms(2)]
  show "\<forall>e\<in>set (stack c). path_entry W mi ifst delim M e"
    and "search_extends (path_entry W mi ifst delim M) W mi ifst delim ip op (store c0) (store c)"
    by blast+
qed

text \<open>
  C1. For a tuple \<open>(q0, q1, w, ilbls, olbls)\<close> on top of the stack at any point of the
  search: the tuple comes from a walk of the source automaton from \<open>q0\<close> to \<open>q1\<close>,
  \<open>w\<close> is \<open>Times\<close> applied from \<open>One\<close> to the weights of its arcs in walk order, and
  \<open>ilbls\<close>, \<open>olbls\<close> are its non-epsilon labels. The iteration that pops it adds exactly
  one arc, \<open>Arc (intern ilbls) (intern olbls) w q1\<close>, at the end of the arcs of \<open>q0\<close> when
  \<open>q0 \<noteq> q1\<close> and \<open>q1\<close> has an outgoing delimiter arc or is final, and otherwise leaves
  the output automaton and the interner as they are.
\<close>

theorem popped_entry_emits_one_arc:
  assumes "expand_init W iter mi ifst delim ip op h = Inr c0"
    and "run_steps W mi ifst delim M ip op k c0 = Inr c"
    and "stack c = (q0, q1, w, ilbls, olbls) # S"
    and "expand_step W mi ifst delim M ip op c = Inr c'"
  shows "(\<exists>p. is_walk ifst q0 p \<and> end_state q0 p = q1 \<and> w = path_weight W p \<and>
              ilbls = path_ilabels p \<and> olbls = path_olabels p)
    \<and> (if q0 \<noteq> q1 \<and> (has_delimiter_arc mi delim ifst q1 \<or> is_final W ifst q1)
        then \<exists>h1 ilab olab.
               intern_at (heap (store c)) ip ilbls = (h1, ilab) \<and>
               intern_at h1 op olbls = (heap (store c'), olab) \<and>
               arcs_of (ofst (store c')) q0 =
                 arcs_of (ofst (store c)) q0 @ [Arc ilab olab w q1] \<and>
               (\<forall>s. s \<noteq> q0 \<longrightarrow> arcs_of (ofst (store c')) s = arcs_of (ofst (store c)) s)
        else store c' = store c)"
proof -
  from reachable_path_entries(1) [OF assms(1,2)] assms(3)
  have "path_entry W mi ifst delim M (q0, q1, w, ilbls, olbls)" by simp
  then obtain p where "is_walk ifst q0 p" "(q0, q1, w, ilbls, olbls) = entry_of_path W q0 p"
    unfolding path_entry_def by auto
  then have walk: "\<exists>p. is_walk ifst q0 p \<and> end_state q0 p = q1 \<and> w = path_weight W p \<and>
              ilbls = path_ilabels p \<and> olbls = path_olabels p"
    unfolding entry_of_path_def by blast
  note step = expand_step_cases [OF assms(3,4)]
  show ?thesis
  proof (cases "emits W mi delim ifst (q0, q1, w, ilbls, olbls)")
    case False
    with step(3) have same: "store c' = store c" by simp
    from False have "\<not> (q0 \<noteq> q1 \<and> (has_delimiter_arc mi delim ifst q1 \<or> is_final W ifst q1))"
      by (simp add: emits_def)
    with same walk show ?thesis by simp
  next
    case True
    with step(3) obtain h1 ilab olab where
      i1: "intern_at (heap (store c)) ip ilbls = (h1, ilab)" and
      i2: "intern_at h1 op olbls = (heap (store c'), olab)" and
      add: "AddArc (ofst (store c)) q0 (Arc ilab olab w q1) = Some (ofst (store c'))"
      by auto
    have "arcs_of (ofst (store c')) q0 = arcs_of (ofst (store c)) q0 @ [Arc ilab olab w q1]"
      and "\<forall>s. s \<noteq> q0 \<longrightarrow> arcs_of (ofst (store c')) s = arcs_of (ofst (store c)) s"
      using AddArc_arcs_of [OF add] by simp_all
    moreover from True have "q0 \<noteq> q1 \<and> (has_delimiter_arc mi delim ifst q1 \<or> is_final W ifst q1)"
      by (simp add: emits_def)
    ultimately show ?thesis using i1 i2 walk by simp
  qed
qed

lemma chain_run_2:
  "run_steps tropical False (chain_fst tropical 5 6 7) {3} 10 0 0 2
     \<lparr>stack = [(0, 0, 0, [], []), (3, 3, 0, [], [])],
      store = \<lparr>ofst = \<lparr>start = 0,
                        states = [\<lparr>final = \<infinity>, arcs = []\<rparr>,
                                  \<lparr>final = \<infinity>, arcs = []\<rparr>,
                                  \<lparr>final = \<infinity>, arcs = [Arc 1 1 7 3]\<rparr>,
                                  \<lparr>final = 0, arcs = []\<rparr>]\<rparr>,
                heap = (\<lambda>_. [])(0 := [([], 0), ([3], 1)])\<rparr>\<rparr> =
   Inr \<lparr>stack = [(0, 2, 11, [1, 2], [1, 2]), (3, 3, 0, [], [])],
      store = \<lparr>ofst = \<lparr>start = 0,
                        states = [\<lparr>final = \<infinity>, arcs = []\<rparr>,
                                  \<lparr>final = \<infinity>, arcs = []\<rparr>,
                                  \<lparr>final = \<infinity>, arcs = [Arc 1 1 7 3]\<rparr>,
                                  \<lparr>final = 0, arcs = []\<rparr>]\<rparr>,
                heap = (\<lambda>_. [])(0 := [([], 0), ([3], 1)])\<rparr>\<rparr>"
  by (simp add: numeral_eq_Suc) (simp add: chain_fst_def expand_eval tropical_def)

lemma chain_step_3:
  "expand_step tropical False (chain_fst tropical 5 6 7) {3} 10 0 0
     \<lparr>stack = [(0, 2, 11, [1, 2], [1, 2]), (3, 3, 0, [], [])],
      store = \<lparr>ofst = \<lparr>start = 0,
                        states = [\<lparr>final = \<infinity>, arcs = []\<rparr>,
                                  \<lparr>final = \<infinity>, arcs = []\<rparr>,
                                  \<lparr>final = \<infinity>, arcs = [Arc 1 1 7 3]\<rparr>,
                                  \<lparr>final = 0, arcs = []\<rparr>]\<rparr>,
                heap = (\<lambda>_. [])(0 := [([], 0), ([3], 1)])\<rparr>\<rparr> =
   Inr \<lparr>stack = [(3, 3, 0, [], [])],
      store = \<lparr>ofst = chain_ofst tropical 5 6 7, heap = chain_heap\<rparr>\<rparr>"
  by (simp add: chain_fst_def expand_eval tropical_def chain_ofst_def chain_heap_def)

lemma chain_expand_init_tropical:
  "expand_init tropical rev False (chain_fst tropical 5 6 7) {3} 0 0 (\<lambda>_. []) =
     Inr \<lparr>stack = [(0, 0, 0, [], []), (3, 3, 0, [], [])],
      store = \<lparr>ofst = \<lparr>start = 0,
                        states = [\<lparr>final = \<infinity>, arcs = []\<rparr>,
                                  \<lparr>final = \<infinity>, arcs = []\<rparr>,
                                  \<lparr>final = \<infinity>, arcs = [Arc 1 1 7 3]\<rparr>,
                                  \<lparr>final = 0, arcs = []\<rparr>]\<rparr>,
                heap = (\<lambda>_. [])(0 := [([], 0), ([3], 1)])\<rparr>\<rparr>"
  by (simp add: chain_expand_init) (simp add: tropical_def)

theorem popped_entry_emits_one_arc_witness:
  "(\<exists>p. is_walk (chain_fst tropical 5 6 7) 0 p \<and> end_state 0 p = 2 \<and>
        11 = path_weight tropical p \<and> [1, 2] = path_ilabels p \<and> [1, 2] = path_olabels p)
   \<and> (\<exists>h1 ilab olab.
         intern_at ((\<lambda>_. [])(0 := [([], 0), ([3], 1)])) 0 [1, 2] = (h1, ilab) \<and>
         intern_at h1 0 [1, 2] = (chain_heap, olab) \<and>
         arcs_of (chain_ofst tropical 5 6 7) 0 = [] @ [Arc ilab olab 11 2])"
proof -
  have fin: "\<not> is_final tropical (chain_fst tropical 5 6 7) 2"
    by (simp add: is_final_def state_at_def valid_state_def chain_fst_def tropical_def)
  have del: "has_delimiter_arc False {3} (chain_fst tropical 5 6 7) 2"
    by (simp add: has_delimiter_arc_def arcs_of_def state_at_def valid_state_def chain_fst_def
        match_label_def)
  have a0: "arcs_of \<lparr>start = 0,
                        states = [\<lparr>final = \<infinity>, arcs = []\<rparr>,
                                  \<lparr>final = \<infinity>, arcs = []\<rparr>,
                                  \<lparr>final = \<infinity>, arcs = [Arc 1 1 (7::enat) 3]\<rparr>,
                                  \<lparr>final = 0, arcs = []\<rparr>]\<rparr> 0 = []"
    by (simp add: arcs_of_def state_at_def valid_state_def)
  from popped_entry_emits_one_arc [OF chain_expand_init_tropical chain_run_2 _ chain_step_3,
      of 0 2 11 "[1, 2]" "[1, 2]" "[(3, 3, 0, [], [])]"] del a0
  show ?thesis by auto
qed

subsection \<open>Epsilon arcs and the length bound\<close>

lemma eps_expand_init:
  "expand_init tropical rev False eps_fst {3} 0 0 (\<lambda>_. []) = Inr eps_config0"
  by (simp add: expand_init_def eps_fst_def eps_config0_def tropical_def expand_eval
      upt_conv_Cons del: upt.simps)

lemma eps_step_1:
  "expand_step tropical False eps_fst {3} 0 0 0 eps_config0 =
     Inr \<lparr>stack = [(0, 1, 7, [5], [])], store = store eps_config0\<rparr>"
  by (simp add: eps_fst_def eps_config0_def tropical_def expand_eval)

lemma eps_step_2:
  "expand_step tropical False eps_fst {3} 0 0 0
     \<lparr>stack = [(0, 1, 7, [5], [])], store = store eps_config0\<rparr> =
     Inr \<lparr>stack = [], store = eps_store\<rparr>"
  by (simp add: eps_fst_def eps_config0_def eps_store_def tropical_def expand_eval)

lemma eps_expand_search:
  "expand_search tropical rev False eps_fst {3} 0 0 0 (\<lambda>_. []) 2 = Some (Inr eps_store)"
proof -
  have "run_steps tropical False eps_fst {3} 0 0 0 2 eps_config0 =
          Inr \<lparr>stack = [], store = eps_store\<rparr>"
    by (simp add: numeral_eq_Suc eps_step_1 eps_step_2) (simp add: eps_config0_def)
  then show ?thesis
    by (simp add: expand_search_def eps_expand_init expand_loop_def)
qed

text \<open>
  C4, as stated, fails: with \<open>max_length = 0\<close> the search pushes the extension through
  the arc \<open>0 \<rightarrow> 1\<close>, which is not a delimiter arc and whose matched (output) label is
  epsilon, and emits an arc \<open>0 \<rightarrow> 1\<close> although the source has no delimiter arc at all.
\<close>

theorem max_length_zero_counterexample:
  "filter (\<lambda>a. match_label False a \<in> {3}) (arcs_of eps_fst 0) = []
   \<and> expand_init tropical rev False eps_fst {3} 0 0 (\<lambda>_. []) = Inr eps_config0
   \<and> expand_step tropical False eps_fst {3} 0 0 0 eps_config0 =
       Inr \<lparr>stack = [extend_entry tropical (0, 0, 0, [], []) (Arc 5 0 7 1)],
            store = store eps_config0\<rparr>
   \<and> expand_search tropical rev False eps_fst {3} 0 0 0 (\<lambda>_. []) 2 = Some (Inr eps_store)
   \<and> arcs_of (ofst eps_store) 0 = [Arc 1 0 7 1]"
  by (simp add: eps_expand_init eps_step_1 eps_expand_search)
     (simp add: eps_fst_def eps_store_def arcs_of_def state_at_def valid_state_def
        match_label_def extend_entry_def tropical_def push_back_nonzero_def)

lemma match_count_zero: "match_count mi p = 0 \<Longrightarrow> \<forall>a\<in>set p. match_label mi a = 0"
  by (auto simp: match_count_def filter_empty_conv)

lemma size_t_of_int32_0: "size_t_of_int32 0 = 0"
  by (simp add: size_t_of_int32_def)

text \<open>
  C4, amended. With \<open>max_length = 0\<close>, every stack entry of the search comes from a walk
  all of whose arcs have an epsilon label on the matched side (and are no delimiter
  arcs), so the search never traverses an arc with a non-epsilon matched label and the
  matched side of every entry is the empty sequence. The arcs of the output automaton
  are the direct copies of the delimiter arcs, followed by arcs whose label on the
  matched side is the id of the empty sequence.
\<close>

theorem max_length_zero_only_epsilon:
  assumes "expand_init W iter mi ifst delim ip op h = Inr c0"
    and "run_steps W mi ifst delim 0 ip op k c0 = Inr c"
  shows "(\<forall>e\<in>set (stack c).
            match_length mi e = 0 \<and>
            (\<exists>p. is_walk ifst (fst e) p \<and> e = entry_of_path W (fst e) p \<and>
                 (\<forall>a\<in>set p. match_label mi a = 0 \<and> match_label mi a \<notin> delim)))
    \<and> (\<forall>s. \<exists>found.
           arcs_of (ofst (store c)) s = arcs_of (ofst (store c0)) s @ found \<and>
           list_all2 (copy_of_arc (heap (store c)) ip op) (arcs_of (ofst (store c0)) s)
             (filter (\<lambda>a. match_label mi a \<in> delim) (arcs_of ifst s)) \<and>
           (\<forall>a\<in>set found.
              map_of (heap (store c) (if mi then ip else op)) [] = Some (match_label mi a)))"
proof -
  note reach = reachable_path_entries [OF assms]
  have entry: "match_length mi e = 0 \<and>
            (\<exists>p. is_walk ifst (fst e) p \<and> e = entry_of_path W (fst e) p \<and>
                 (\<forall>a\<in>set p. match_label mi a = 0 \<and> match_label mi a \<notin> delim))"
    if "path_entry W mi ifst delim 0 e" for e
  proof -
    from that obtain p where p: "is_walk ifst (fst e) p" "e = entry_of_path W (fst e) p"
      "\<forall>a\<in>set p. match_label mi a \<notin> delim" "match_count mi p = 0"
      unfolding path_entry_def by (auto simp: size_t_of_int32_0)
    have "match_length mi e = 0"
      by (subst p(2)) (simp add: match_length_entry_of_path p(4))
    with p match_count_zero [OF p(4)] show ?thesis by blast
  qed
  have stack: "\<forall>e\<in>set (stack c).
            match_length mi e = 0 \<and>
            (\<exists>p. is_walk ifst (fst e) p \<and> e = entry_of_path W (fst e) p \<and>
                 (\<forall>a\<in>set p. match_label mi a = 0 \<and> match_label mi a \<notin> delim))"
    using reach(1) entry by blast
  from expand_init_result [of W iter mi ifst delim ip op h] assms(1)
  have copies0: "\<forall>s. list_all2 (copy_of_arc (heap (store c0)) ip op) (arcs_of (ofst (store c0)) s)
            (filter (\<lambda>a. match_label mi a \<in> delim) (arcs_of ifst s))"
    by auto
  from reach(2) have le: "heap_le (heap (store c0)) (heap (store c))"
    by (simp add: search_extends_def)
  have arcs: "\<exists>found.
           arcs_of (ofst (store c)) s = arcs_of (ofst (store c0)) s @ found \<and>
           list_all2 (copy_of_arc (heap (store c)) ip op) (arcs_of (ofst (store c0)) s)
             (filter (\<lambda>a. match_label mi a \<in> delim) (arcs_of ifst s)) \<and>
           (\<forall>a\<in>set found.
              map_of (heap (store c) (if mi then ip else op)) [] = Some (match_label mi a))" for s
  proof -
    from reach(2) obtain found where
      found: "arcs_of (ofst (store c)) s = arcs_of (ofst (store c0)) s @ found"
        "\<forall>a\<in>set found. \<exists>e. path_entry W mi ifst delim 0 e \<and> emits W mi delim ifst e \<and>
            fst e = s \<and> arc_of_entry (heap (store c)) ip op a e"
      unfolding search_extends_def by blast
    have copies: "list_all2 (copy_of_arc (heap (store c)) ip op) (arcs_of (ofst (store c0)) s)
             (filter (\<lambda>a. match_label mi a \<in> delim) (arcs_of ifst s))"
      using copies0 copy_of_arc_mono [OF le] by (blast intro: list_all2_mono)
    have "map_of (heap (store c) (if mi then ip else op)) [] = Some (match_label mi a)"
      if "a \<in> set found" for a
    proof -
      from found(2) that obtain e where e: "path_entry W mi ifst delim 0 e"
        "arc_of_entry (heap (store c)) ip op a e" by blast
      obtain q0 q1 w il ol where eq: "e = (q0, q1, w, il, ol)" by (cases e) auto
      from entry [OF e(1)] have "match_length mi e = 0" by blast
      with eq have "if mi then il = [] else ol = []"
        by (simp add: match_length_def split: if_splits)
      with e(2) eq show ?thesis
        by (simp add: arc_of_entry_def match_label_def split: if_splits)
    qed
    with found(1) copies show ?thesis by blast
  qed
  from stack arcs show ?thesis by blast
qed

theorem max_length_zero_only_epsilon_witness:
  "match_length False (0, 1, 7::enat, [5], []) = 0
   \<and> (\<exists>p. is_walk eps_fst 0 p \<and> (0, 1, 7, [5], []) = entry_of_path tropical 0 p \<and>
           (\<forall>a\<in>set p. match_label False a = 0 \<and> match_label False a \<notin> {3}))"
proof -
  have run: "run_steps tropical False eps_fst {3} 0 0 0 1 eps_config0 =
      Inr \<lparr>stack = [(0, 1, 7, [5], [])], store = store eps_config0\<rparr>"
    by (simp add: eps_step_1) (simp add: eps_config0_def)
  from max_length_zero_only_epsilon [OF eps_expand_init run] show ?thesis by simp
qed

text \<open>
  C9. At any point of the search, for the entry on top of the stack and any arc
  leaving its state \<open>q1\<close> whose matched label is epsilon (epsilon being no delimiter),
  the test of line 117 succeeds whatever \<open>max_length\<close> is: the extension is pushed and
  its counted length is that of the entry. The bound is only on the matched side: in
  the example with \<open>max_length = 0\<close> the emitted arc carries the input sequence \<open>[5]\<close>.
\<close>

theorem epsilon_arcs_are_not_pruned:
  "(expand_init W iter mi ifst delim ip op h = Inr c0 \<and>
    run_steps W mi ifst delim M ip op k c0 = Inr c \<and>
    stack c = e # S \<and>
    expand_step W mi ifst delim M ip op c = Inr c' \<and>
    a \<in> set (arcs_of ifst (fst (snd e))) \<and> match_label mi a = 0 \<and> 0 \<notin> delim \<longrightarrow>
      pushable mi delim M e a \<and>
      extend_entry W e a \<in> set (stack c') \<and>
      match_length mi (extend_entry W e a) = match_length mi e)
   \<and> (\<exists>st b il.
         expand_search tropical rev False eps_fst {3} 0 0 0 (\<lambda>_. []) 2 = Some (Inr st) \<and>
         b \<in> set (arcs_of (ofst st) 0) \<and>
         map_of (heap st 0) il = Some (ilabel b) \<and>
         size_t_of_int32 0 < length il)"
proof (intro conjI impI)
  assume asm: "expand_init W iter mi ifst delim ip op h = Inr c0 \<and>
    run_steps W mi ifst delim M ip op k c0 = Inr c \<and>
    stack c = e # S \<and>
    expand_step W mi ifst delim M ip op c = Inr c' \<and>
    a \<in> set (arcs_of ifst (fst (snd e))) \<and> match_label mi a = 0 \<and> 0 \<notin> delim"
  then have init: "expand_init W iter mi ifst delim ip op h = Inr c0"
    and run: "run_steps W mi ifst delim M ip op k c0 = Inr c"
    and top: "stack c = e # S"
    and step: "expand_step W mi ifst delim M ip op c = Inr c'"
    and a: "a \<in> set (arcs_of ifst (fst (snd e)))" "match_label mi a = 0" "0 \<notin> delim"
    by blast+
  from reachable_path_entries(1) [OF init run] top
  have "path_entry W mi ifst delim M e" by simp
  then obtain p where p: "e = entry_of_path W (fst e) p"
    "match_count mi p \<le> size_t_of_int32 M"
    unfolding path_entry_def by blast
  have "match_length mi e = match_count mi p"
    by (subst p(1)) (rule match_length_entry_of_path)
  with p(2) a(2,3) show push: "pushable mi delim M e a"
    by (simp add: pushable_iff)
  obtain q0 q1 w il ol where eq: "e = (q0, q1, w, il, ol)" by (cases e) auto
  from expand_step_cases(2) [OF top [unfolded eq] step]
  have "stack c' = rev (pushed_entries W mi ifst delim M e) @ S"
    by (simp add: eq)
  with a(1) push show "extend_entry W e a \<in> set (stack c')"
    by (simp add: pushed_entries_def)
  from a(2) show "match_length mi (extend_entry W e a) = match_length mi e"
    by (simp add: match_length_extend)
next
  have "Arc 1 0 7 1 \<in> set (arcs_of (ofst eps_store) 0)"
    by (simp add: eps_store_def arcs_of_def state_at_def valid_state_def)
  moreover have "map_of (heap eps_store 0) [5] = Some (ilabel (Arc 1 0 (7::enat) 1))"
    by (simp add: eps_store_def)
  moreover have "size_t_of_int32 0 < length [5::int]"
    by (simp add: size_t_of_int32_0)
  ultimately show "\<exists>st b il.
         expand_search tropical rev False eps_fst {3} 0 0 0 (\<lambda>_. []) 2 = Some (Inr st) \<and>
         b \<in> set (arcs_of (ofst st) 0) \<and>
         map_of (heap st 0) il = Some (ilabel b) \<and>
         size_t_of_int32 0 < length il"
    using eps_expand_search by blast
qed

theorem epsilon_arcs_are_not_pruned_witness:
  "pushable False {3} 0 (0, 0, 0::enat, [], []) (Arc 5 0 7 1)
   \<and> extend_entry tropical (0, 0, 0, [], []) (Arc 5 0 7 1) \<in> set [(0, 1, 7, [5], [])]
   \<and> match_length False (extend_entry tropical (0, 0, 0, [], []) (Arc 5 0 7 1)) = 0"
proof -
  have run: "run_steps tropical False eps_fst {3} 0 0 0 0 eps_config0 = Inr eps_config0"
    by simp
  have top: "stack eps_config0 = (0, 0, 0, [], []) # []"
    by (simp add: eps_config0_def)
  have a: "Arc 5 0 7 1 \<in> set (arcs_of eps_fst (fst (snd (0::int, 0::int, 0::enat, []::int list, []::int list))))"
    by (simp add: eps_fst_def arcs_of_def state_at_def valid_state_def)
  have ml: "match_label False (Arc 5 0 (7::enat) 1) = 0"
    by (simp add: match_label_def)
  have d: "(0::int) \<notin> {3}" by simp
  from epsilon_arcs_are_not_pruned [of tropical rev False eps_fst "{3}" 0 0 "\<lambda>_. []"
      eps_config0 0 0 eps_config0 "(0, 0, 0, [], [])" "[]"
      "\<lparr>stack = [(0, 1, 7, [5], [])], store = store eps_config0\<rparr>" "Arc 5 0 7 1"]
    eps_expand_init run top eps_step_1 a ml d
  show ?thesis by (simp add: match_length_def)
qed

subsection \<open>The entries the search pops, as walks\<close>

lemma walks_upto_iff: "p \<in> set (walks_upto f q n) \<longleftrightarrow> is_walk f q p \<and> length p < n"
proof (induction n arbitrary: q p)
  case 0
  show ?case by simp
next
  case (Suc n)
  show ?case
  proof (cases p)
    case Nil
    then show ?thesis by simp
  next
    case (Cons a r)
    with Suc show ?thesis by auto
  qed
qed

lemma extend_path_Nil: "extend_path W e [] = e"
  by (simp add: extend_path_def)

lemma extend_path_Cons: "extend_path W e (a # p) = extend_path W (extend_entry W e a) p"
  by (simp add: extend_path_def)

lemma extend_path_entry_of_path:
  "extend_path W (entry_of_path W q0 p0) p = entry_of_path W q0 (p0 @ p)"
proof (induction p arbitrary: p0)
  case Nil
  show ?case by (simp add: extend_path_Nil)
next
  case (Cons a p)
  have "extend_path W (entry_of_path W q0 p0) (a # p) =
        extend_path W (entry_of_path W q0 (p0 @ [a])) p"
    by (simp add: extend_path_Cons entry_of_path_snoc)
  also have "\<dots> = entry_of_path W q0 ((p0 @ [a]) @ p)" by (rule Cons.IH)
  finally show ?case by simp
qed

lemma match_count_Nil: "match_count mi [] = 0"
  by (simp add: match_count_def)

lemma match_count_Cons:
  "match_count mi (a # p) = (if match_label mi a = 0 then 0 else 1) + match_count mi p"
  by (simp add: match_count_def)

lemma traversable_iff:
  "traversable W mi delim M e p \<longleftrightarrow>
     (\<forall>a\<in>set p. match_label mi a \<notin> delim) \<and>
     (p = [] \<or> match_length mi e + match_count mi p \<le> size_t_of_int32 M)"
proof (induction p arbitrary: e)
  case Nil
  show ?case by simp
next
  case (Cons a p)
  let ?d = "if match_label mi a = 0 then 0 else (1::nat)"
  let ?L = "match_length mi e"
  have "traversable W mi delim M e (a # p) \<longleftrightarrow>
      (match_label mi a \<notin> delim \<and> ?L + ?d \<le> size_t_of_int32 M) \<and>
      (\<forall>b\<in>set p. match_label mi b \<notin> delim) \<and>
      (p = [] \<or> ?L + ?d + match_count mi p \<le> size_t_of_int32 M)"
    by (simp only: traversable.simps Cons.IH pushable_iff match_length_extend)
  also have "\<dots> \<longleftrightarrow>
      (\<forall>b\<in>set (a # p). match_label mi b \<notin> delim) \<and>
      ?L + match_count mi (a # p) \<le> size_t_of_int32 M"
  proof (cases "p = []")
    case True
    then show ?thesis by (simp add: match_count_Cons match_count_Nil)
  next
    case False
    have "?L + ?d + match_count mi p = ?L + match_count mi (a # p)"
      by (simp add: match_count_Cons)
    moreover have "?L + ?d \<le> ?L + match_count mi (a # p)"
      by (simp add: match_count_Cons)
    ultimately show ?thesis using False by auto
  qed
  finally show ?case by simp
qed

lemma subtree_step:
  "map (extend_path W e)
     (filter (traversable W mi delim M e) (concat (map (\<lambda>a. map ((#) a) (G a)) as))) =
   concat (map (\<lambda>a. map (extend_path W (extend_entry W e a))
                        (filter (traversable W mi delim M (extend_entry W e a)) (G a)))
             (filter (pushable mi delim M e) as))"
proof (induction as)
  case Nil
  show ?case by simp
next
  case (Cons a as)
  have "map (extend_path W e) (filter (traversable W mi delim M e) (map ((#) a) (G a))) =
        (if pushable mi delim M e a
         then map (extend_path W (extend_entry W e a))
                (filter (traversable W mi delim M (extend_entry W e a)) (G a))
         else [])"
    by (simp add: filter_map comp_def extend_path_Cons)
  with Cons show ?case by simp
qed

lemma subtree_walks:
  "subtree W mi ifst delim M n e =
     map (extend_path W e)
       (filter (traversable W mi delim M e) (walks_upto ifst (fst (snd e)) n))"
proof (induction n arbitrary: e)
  case 0
  show ?case by simp
next
  case (Suc n)
  let ?as = "rev (arcs_of ifst (fst (snd e)))"
  have "concat (map (subtree W mi ifst delim M n) (rev (pushed_entries W mi ifst delim M e))) =
        concat (map (\<lambda>a. subtree W mi ifst delim M n (extend_entry W e a))
                  (filter (pushable mi delim M e) ?as))"
    by (simp add: pushed_entries_def rev_map rev_filter comp_def)
  also have "\<dots> = concat (map (\<lambda>a. map (extend_path W (extend_entry W e a))
                        (filter (traversable W mi delim M (extend_entry W e a))
                           (walks_upto ifst (nextstate a) n)))
             (filter (pushable mi delim M e) ?as))"
    by (simp add: Suc.IH snd_extend_entry)
  also have "\<dots> = map (extend_path W e)
     (filter (traversable W mi delim M e)
        (concat (map (\<lambda>a. map ((#) a) (walks_upto ifst (nextstate a) n)) ?as)))"
    by (rule subtree_step [symmetric])
  finally show ?case
    by (simp add: extend_path_Nil)
qed

lemma fst_extend_path: "fst (extend_path W e p) = fst e"
  by (induction p arbitrary: e) (simp_all add: extend_path_Nil extend_path_Cons fst_extend_entry)

lemma fst_subtree: "x \<in> set (subtree W mi ifst delim M n e) \<Longrightarrow> fst x = fst e"
  by (auto simp: subtree_walks fst_extend_path)

subsection \<open>What a returning search has emitted\<close>

lemma run_steps_Suc_Cons:
  assumes "run_steps W mi ifst delim M ip op (Suc n) c = Inr c'" and "stack c = e # S"
  shows "\<exists>c1. expand_step W mi ifst delim M ip op c = Inr c1 \<and>
              run_steps W mi ifst delim M ip op n c1 = Inr c' \<and>
              stack c1 = rev (pushed_entries W mi ifst delim M e) @ S"
proof -
  from assms obtain c1 where
    step: "expand_step W mi ifst delim M ip op c = Inr c1" and
    run: "run_steps W mi ifst delim M ip op n c1 = Inr c'"
    by (auto split: sum.splits)
  obtain q0 q1 w il ol where e: "e = (q0, q1, w, il, ol)" by (cases e) auto
  from expand_step_cases(2) [OF assms(2) [unfolded e] step]
  have "stack c1 = rev (pushed_entries W mi ifst delim M e) @ S" by (simp add: e)
  with step run show ?thesis by blast
qed

lemma run_steps_complete:
  "run_steps W mi ifst delim M ip op n c = Inr c' \<Longrightarrow> stack c' = [] \<Longrightarrow>
   \<forall>e\<in>set (stack c). \<forall>k\<ge>n. subtree W mi ifst delim M k e = subtree W mi ifst delim M n e"
proof (induction n arbitrary: c)
  case 0
  then show ?case by simp
next
  case (Suc n)
  show ?case
  proof (cases "stack c")
    case Nil
    then show ?thesis by simp
  next
    case (Cons e S)
    from run_steps_Suc_Cons [OF Suc.prems(1) Cons] obtain c1 where
      run: "run_steps W mi ifst delim M ip op n c1 = Inr c'" and
      st1: "stack c1 = rev (pushed_entries W mi ifst delim M e) @ S"
      by blast
    note IH = Suc.IH [OF run Suc.prems(2)]
    have top: "subtree W mi ifst delim M k e = subtree W mi ifst delim M (Suc n) e"
      if "k \<ge> Suc n" for k
    proof -
      from that obtain k' where k: "k = Suc k'" "k' \<ge> n" by (cases k) auto
      have "subtree W mi ifst delim M k' x = subtree W mi ifst delim M n x"
        if "x \<in> set (rev (pushed_entries W mi ifst delim M e))" for x
      proof -
        from that have "x \<in> set (stack c1)" by (simp only: st1 set_append UnI1)
        with IH k(2) show ?thesis by blast
      qed
      then have m: "map (subtree W mi ifst delim M k') (rev (pushed_entries W mi ifst delim M e)) =
            map (subtree W mi ifst delim M n) (rev (pushed_entries W mi ifst delim M e))"
        by (rule map_cong [OF refl])
      show ?thesis by (simp only: k(1) subtree.simps m)
    qed
    have rest: "subtree W mi ifst delim M k x = subtree W mi ifst delim M (Suc n) x"
      if "k \<ge> Suc n" "x \<in> set S" for k x
    proof -
      from that(2) have "x \<in> set (stack c1)" by (simp only: st1 set_append UnI2)
      with IH have all: "\<forall>j\<ge>n. subtree W mi ifst delim M j x = subtree W mi ifst delim M n x"
        by blast
      from that(1) have "n \<le> k" by simp
      with all have 1: "subtree W mi ifst delim M k x = subtree W mi ifst delim M n x"
        by blast
      have "n \<le> Suc n" by simp
      with all have 2: "subtree W mi ifst delim M (Suc n) x = subtree W mi ifst delim M n x"
        by blast
      from 1 2 [symmetric] show ?thesis by (rule trans)
    qed
    show ?thesis
    proof (intro ballI allI impI)
      fix x k assume x: "x \<in> set (stack c)" and k: "Suc n \<le> k"
      from x Cons have "x = e \<or> x \<in> set S" by simp
      then show "subtree W mi ifst delim M k x = subtree W mi ifst delim M (Suc n) x"
        using top [OF k] rest [OF k] by blast
    qed
  qed
qed

lemma run_steps_bounded:
  "run_steps W mi ifst delim M ip op n c = Inr c' \<Longrightarrow> stack c' = [] \<Longrightarrow>
   \<forall>e\<in>set (stack c). \<forall>p. is_walk ifst (fst (snd e)) p \<and> traversable W mi delim M e p
      \<longrightarrow> length p < n"
proof (induction n arbitrary: c)
  case 0
  then show ?case by simp
next
  case (Suc n)
  show ?case
  proof (cases "stack c")
    case Nil
    then show ?thesis by simp
  next
    case (Cons e S)
    from run_steps_Suc_Cons [OF Suc.prems(1) Cons] obtain c1 where
      run: "run_steps W mi ifst delim M ip op n c1 = Inr c'" and
      st1: "stack c1 = rev (pushed_entries W mi ifst delim M e) @ S"
      by blast
    note IH = Suc.IH [OF run Suc.prems(2)]
    have top: "length p < Suc n"
      if "is_walk ifst (fst (snd e)) p" "traversable W mi delim M e p" for p
    proof (cases p)
      case Nil
      then show ?thesis by simp
    next
      case (Cons a r)
      with that have a: "a \<in> set (arcs_of ifst (fst (snd e)))" "pushable mi delim M e a"
        and r: "is_walk ifst (nextstate a) r" "traversable W mi delim M (extend_entry W e a) r"
        by simp_all
      from a have "extend_entry W e a \<in> set (stack c1)"
        by (simp add: st1 pushed_entries_def)
      with IH r have "length r < n" by (auto simp: snd_extend_entry)
      with Cons show ?thesis by simp
    qed
    have rest: "length p < Suc n"
      if "x \<in> set S" "is_walk ifst (fst (snd x)) p" "traversable W mi delim M x p" for x p
    proof -
      from IH st1 that have "length p < n" by auto
      then show ?thesis by simp
    qed
    from top rest Cons show ?thesis by auto
  qed
qed

lemma run_steps_emitted:
  "run_steps W mi ifst delim M ip op n c = Inr c' \<Longrightarrow> stack c' = [] \<Longrightarrow>
   heap_le (heap (store c)) (heap (store c')) \<and>
   (\<forall>s. \<exists>new. arcs_of (ofst (store c')) s = arcs_of (ofst (store c)) s @ new \<and>
          list_all2 (arc_of_entry (heap (store c')) ip op) new
            (filter (\<lambda>e. emits W mi delim ifst e \<and> fst e = s)
               (concat (map (subtree W mi ifst delim M n) (stack c)))))"
proof (induction n arbitrary: c)
  case 0
  then show ?case by (simp add: heap_le_refl)
next
  case (Suc n)
  show ?case
  proof (cases "stack c")
    case Nil
    with Suc.prems show ?thesis by (simp add: heap_le_refl)
  next
    case (Cons e S)
    let ?F = "\<lambda>s e. emits W mi delim ifst e \<and> fst e = s"
    let ?sub = "subtree W mi ifst delim M"
    from run_steps_Suc_Cons [OF Suc.prems(1) Cons] obtain c1 where
      step: "expand_step W mi ifst delim M ip op c = Inr c1" and
      run: "run_steps W mi ifst delim M ip op n c1 = Inr c'" and
      st1: "stack c1 = rev (pushed_entries W mi ifst delim M e) @ S"
      by blast
    from Suc.IH [OF run Suc.prems(2)] have
      le1: "heap_le (heap (store c1)) (heap (store c'))" and
      arcs1: "\<forall>s. \<exists>new. arcs_of (ofst (store c')) s = arcs_of (ofst (store c1)) s @ new \<and>
          list_all2 (arc_of_entry (heap (store c')) ip op) new
            (filter (?F s) (concat (map (?sub n) (stack c1))))"
      by blast+
    obtain q0 q1 w il ol where e: "e = (q0, q1, w, il, ol)" by (cases e) auto
    note cases = expand_step_cases(3) [OF Cons [unfolded e] step]
    have "?sub (Suc n) x = ?sub n x" if "x \<in> set S" for x
    proof -
      from that have "x \<in> set (stack c1)" by (simp only: st1 set_append UnI2)
      moreover have "n \<le> Suc n" by simp
      ultimately show ?thesis
        using run_steps_complete [OF run Suc.prems(2)] by blast
    qed
    then have m: "map (?sub (Suc n)) S = map (?sub n) S"
      by (rule map_cong [OF refl])
    have tree: "concat (map (?sub (Suc n)) (stack c)) = e # concat (map (?sub n) (stack c1))"
      by (simp only: Cons st1 list.map concat.simps m subtree.simps map_append concat_append
          append_Cons append_assoc)
    have first: "heap_le (heap (store c)) (heap (store c1)) \<and>
      (\<forall>s. \<exists>new. arcs_of (ofst (store c1)) s = arcs_of (ofst (store c)) s @ new \<and>
          list_all2 (arc_of_entry (heap (store c1)) ip op) new (filter (?F s) [e]))"
    proof (cases "emits W mi delim ifst e")
      case False
      with cases e have "store c1 = store c" by simp
      with False show ?thesis by (simp add: heap_le_refl)
    next
      case True
      with cases e obtain h1 ilab olab where
        i1: "intern_at (heap (store c)) ip il = (h1, ilab)" and
        i2: "intern_at h1 op ol = (heap (store c1), olab)" and
        add: "AddArc (ofst (store c)) q0 (Arc ilab olab w q1) = Some (ofst (store c1))"
        by auto
      have le2: "heap_le h1 (heap (store c1))" by (rule intern_at_le [OF i2])
      have le: "heap_le (heap (store c)) (heap (store c1))"
        by (rule heap_le_trans [OF intern_at_le [OF i1] le2])
      have "map_of (heap (store c1) ip) il = Some ilab"
        using intern_at_holds [OF i1] le2 by (simp add: heap_le_def)
      then have arc: "arc_of_entry (heap (store c1)) ip op (Arc ilab olab w q1) e"
        using intern_at_holds [OF i2] by (simp add: arc_of_entry_def e)
      have "\<exists>new. arcs_of (ofst (store c1)) s = arcs_of (ofst (store c)) s @ new \<and>
          list_all2 (arc_of_entry (heap (store c1)) ip op) new (filter (?F s) [e])" for s
      proof (cases "s = q0")
        case True
        with AddArc_arcs_of [OF add, of s]
        have "arcs_of (ofst (store c1)) s = arcs_of (ofst (store c)) s @ [Arc ilab olab w q1]"
          by simp
        moreover have "list_all2 (arc_of_entry (heap (store c1)) ip op) [Arc ilab olab w q1]
            (filter (?F s) [e])"
          using arc True \<open>emits W mi delim ifst e\<close> e by simp
        ultimately show ?thesis by blast
      next
        case False
        with AddArc_arcs_of [OF add, of s]
        have "arcs_of (ofst (store c1)) s = arcs_of (ofst (store c)) s @ []" by simp
        moreover have "list_all2 (arc_of_entry (heap (store c1)) ip op) [] (filter (?F s) [e])"
          using False e by simp
        ultimately show ?thesis by blast
      qed
      with le show ?thesis by blast
    qed
    have "\<exists>new. arcs_of (ofst (store c')) s = arcs_of (ofst (store c)) s @ new \<and>
          list_all2 (arc_of_entry (heap (store c')) ip op) new
            (filter (?F s) (concat (map (?sub (Suc n)) (stack c))))" for s
    proof -
      from first obtain n0 where n0: "arcs_of (ofst (store c1)) s = arcs_of (ofst (store c)) s @ n0"
        "list_all2 (arc_of_entry (heap (store c1)) ip op) n0 (filter (?F s) [e])" by blast
      from arcs1 obtain n1 where n1: "arcs_of (ofst (store c')) s = arcs_of (ofst (store c1)) s @ n1"
        "list_all2 (arc_of_entry (heap (store c')) ip op) n1
            (filter (?F s) (concat (map (?sub n) (stack c1))))" by blast
      have "list_all2 (arc_of_entry (heap (store c')) ip op) n0 (filter (?F s) [e])"
        using n0(2) arc_of_entry_mono [OF le1] by (blast intro: list_all2_mono)
      from this n1(2) have "list_all2 (arc_of_entry (heap (store c')) ip op) (n0 @ n1)
          (filter (?F s) [e] @ filter (?F s) (concat (map (?sub n) (stack c1))))"
        by (rule list_all2_appendI)
      moreover have "filter (?F s) [e] @ filter (?F s) (concat (map (?sub n) (stack c1))) =
          filter (?F s) (concat (map (?sub (Suc n)) (stack c)))"
        by (simp only: tree filter_append [symmetric] append_Cons append_Nil)
      ultimately show ?thesis using n0(1) n1(1) by auto
    qed
    moreover from first le1 have "heap_le (heap (store c)) (heap (store c'))"
      by (blast intro: heap_le_trans)
    ultimately show ?thesis by blast
  qed
qed

subsection \<open>No delimiters\<close>

lemma distinct_set_single:
  assumes "distinct xs" and "set xs = {a}"
  shows "xs = [a]"
proof -
  from assms(1) have "mset xs = mset_set (set xs)" by (simp only: mset_set_set)
  with assms(2) have "mset xs = {#a#}" by simp
  then show ?thesis by simp
qed

lemma delimiter_targets_empty: "delimiter_targets mi {} f = {}"
  by (simp add: delimiter_targets_def)

lemma has_delimiter_arc_empty: "has_delimiter_arc mi {} f q = False"
  by (simp add: has_delimiter_arc_def list_ex_iff)

lemma expand_init_no_delimiters:
  assumes "\<forall>xs. mset (iter xs) = mset xs"
    and "expand_init W iter mi ifst {} ip op h = Inr c0"
  shows "stack c0 = [(start ifst, start ifst, One W, [], [])]"
    and "arcs_of (ofst (store c0)) s = []"
proof -
  from expand_init_result [of W iter mi ifst "{}" ip op h] assms(2) obtain seeds where
    stack: "stack c0 = rev (map (\<lambda>s. (s, s, One W, [], [])) (iter seeds))" and
    dist: "distinct seeds" and
    seeds: "set seeds = insert (start ifst) (delimiter_targets mi {} ifst)" and
    copies: "\<forall>s. list_all2 (copy_of_arc (heap (store c0)) ip op) (arcs_of (ofst (store c0)) s)
                  (filter (\<lambda>a. match_label mi a \<in> {}) (arcs_of ifst s))"
    by auto
  from dist seeds have "seeds = [start ifst]"
    by (simp only: delimiter_targets_empty distinct_set_single)
  moreover from assms(1) have "mset (iter [start ifst]) = mset [start ifst]" by blast
  then have "iter [start ifst] = [start ifst]" by simp
  ultimately show "stack c0 = [(start ifst, start ifst, One W, [], [])]"
    using stack by simp
  from copies show "arcs_of (ofst (store c0)) s = []" by simp
qed

lemma no_delimiters_search:
  assumes "\<forall>xs. mset (iter xs) = mset xs"
    and "expand_search W iter mi ifst {} M ip op h n = Some (Inr st)"
  shows "(\<forall>p. is_walk ifst (start ifst) p \<and> match_count mi p \<le> size_t_of_int32 M
              \<longrightarrow> length p < n)
    \<and> list_all2 (\<lambda>a p. arc_of_entry (heap st) ip op a (entry_of_path W (start ifst) p))
         (arcs_of (ofst st) (start ifst))
         (filter (\<lambda>p. match_count mi p \<le> size_t_of_int32 M \<and>
                      end_state (start ifst) p \<noteq> start ifst \<and>
                      is_final W ifst (end_state (start ifst) p))
            (walks_upto ifst (start ifst) n))
    \<and> (\<forall>s. s \<noteq> start ifst \<longrightarrow> arcs_of (ofst st) s = [])"
proof -
  let ?q = "start ifst"
  let ?e0 = "(?q, ?q, One W, [], [])"
  let ?M = "size_t_of_int32 M"
  from expand_search_cases [OF assms(2)] obtain c0 c' where
    init: "expand_init W iter mi ifst {} ip op h = Inr c0" and
    run: "run_steps W mi ifst {} M ip op n c0 = Inr c'" and
    empty: "stack c' = []" and st: "store c' = st"
    by blast
  note c0 = expand_init_no_delimiters [OF assms(1) init]
  have e0: "?e0 = entry_of_path W ?q []" by (simp add: entry_of_path_Nil)
  have trav: "traversable W mi {} M ?e0 p \<longleftrightarrow> match_count mi p \<le> ?M" for p
    by (cases "p = []") (simp_all add: traversable_iff match_length_def match_count_Nil)
  have ext: "extend_path W ?e0 p = entry_of_path W ?q p" for p
    unfolding e0 by (simp add: extend_path_entry_of_path)
  have bound: "\<forall>p. is_walk ifst ?q p \<and> match_count mi p \<le> ?M \<longrightarrow> length p < n"
    using run_steps_bounded [OF run empty] c0(1) by (simp add: trav)
  have tree: "subtree W mi ifst {} M n ?e0 =
      map (entry_of_path W ?q) (filter (\<lambda>p. match_count mi p \<le> ?M) (walks_upto ifst ?q n))"
  proof -
    have "traversable W mi {} M ?e0 = (\<lambda>p. match_count mi p \<le> ?M)"
      by (rule HOL.ext) (rule trav)
    moreover have "extend_path W ?e0 = entry_of_path W ?q"
      by (rule HOL.ext) (rule ext)
    ultimately show ?thesis by (simp add: subtree_walks)
  qed
  have emit: "emits W mi {} ifst (entry_of_path W ?q p) \<longleftrightarrow>
      end_state ?q p \<noteq> ?q \<and> is_final W ifst (end_state ?q p)" for p
    by (auto simp: emits_def entry_of_path_def has_delimiter_arc_empty)
  from run_steps_emitted [OF run empty] st
  have arcs: "\<forall>s. \<exists>new. arcs_of (ofst st) s = arcs_of (ofst (store c0)) s @ new \<and>
          list_all2 (arc_of_entry (heap st) ip op) new
            (filter (\<lambda>e. emits W mi {} ifst e \<and> fst e = s)
               (concat (map (subtree W mi ifst {} M n) (stack c0))))"
    by blast
  have at: "list_all2 (arc_of_entry (heap st) ip op) (arcs_of (ofst st) s)
      (map (entry_of_path W ?q)
         (filter (\<lambda>p. match_count mi p \<le> ?M \<and>
                      (end_state ?q p \<noteq> ?q \<and> is_final W ifst (end_state ?q p)) \<and> ?q = s)
            (walks_upto ifst ?q n)))" for s
  proof -
    from arcs obtain new where new: "arcs_of (ofst st) s = arcs_of (ofst (store c0)) s @ new"
      "list_all2 (arc_of_entry (heap st) ip op) new
            (filter (\<lambda>e. emits W mi {} ifst e \<and> fst e = s)
               (concat (map (subtree W mi ifst {} M n) (stack c0))))"
      by blast
    from new(1) have "arcs_of (ofst st) s = new" by (simp add: c0(2))
    moreover have "filter (\<lambda>e. emits W mi {} ifst e \<and> fst e = s)
               (concat (map (subtree W mi ifst {} M n) (stack c0))) =
        map (entry_of_path W ?q)
         (filter (\<lambda>p. match_count mi p \<le> ?M \<and>
                      (end_state ?q p \<noteq> ?q \<and> is_final W ifst (end_state ?q p)) \<and> ?q = s)
            (walks_upto ifst ?q n))"
      by (simp add: c0(1) tree filter_map comp_def emit fst_entry_of_path)
    ultimately show ?thesis using new(2) by simp
  qed
  have start: "list_all2 (\<lambda>a p. arc_of_entry (heap st) ip op a (entry_of_path W ?q p))
         (arcs_of (ofst st) ?q)
         (filter (\<lambda>p. match_count mi p \<le> ?M \<and> end_state ?q p \<noteq> ?q \<and>
                      is_final W ifst (end_state ?q p))
            (walks_upto ifst ?q n))"
    using at [of ?q] by (simp add: list_all2_map2)
  have other: "arcs_of (ofst st) s = []" if "s \<noteq> ?q" for s
    using at [of s] that by simp
  from bound start other show ?thesis by blast
qed

lemma cycle_expand_search:
  "expand_search tropical rev False cycle_fst {} 2 0 0 (\<lambda>_. []) 3 = Some (Inr cycle_store)"
proof -
  have init: "expand_init tropical rev False cycle_fst {} 0 0 (\<lambda>_. []) =
      Inr \<lparr>stack = [(0, 0, 0, [], [])], store = cycle_store\<rparr>"
    by (simp add: expand_init_def cycle_fst_def cycle_store_def tropical_def expand_eval
        upt_conv_Cons del: upt.simps)
  have run: "run_steps tropical False cycle_fst {} 2 0 0 3
      \<lparr>stack = [(0, 0, 0, [], [])], store = cycle_store\<rparr> =
      Inr \<lparr>stack = [], store = cycle_store\<rparr>"
    by (simp add: numeral_eq_Suc) (simp add: cycle_fst_def tropical_def expand_eval)
  show ?thesis
    by (simp add: expand_search_def init expand_loop_def run)
qed

text \<open>
  C3, as stated, fails: the walk \<open>0 \<rightarrow> 1 \<rightarrow> 0\<close> leads from the start state to a final
  state (the start state itself) with two labels, within \<open>max_length = 2\<close>, and the
  search returns, but the output automaton has no arc, before and after the trim.
\<close>

theorem no_delimiters_counterexample:
  "is_walk cycle_fst (start cycle_fst) [Arc 1 1 5 1, Arc 2 2 6 0]
   \<and> match_count False [Arc 1 1 (5::enat) 1, Arc 2 2 6 0] \<le> 2
   \<and> is_final tropical cycle_fst (end_state (start cycle_fst) [Arc 1 1 5 1, Arc 2 2 6 0])
   \<and> expand_search tropical rev False cycle_fst {} 2 0 0 (\<lambda>_. []) 3 = Some (Inr cycle_store)
   \<and> map arcs (states (ofst cycle_store)) = [[], []]
   \<and> ExpandFst tropical rev False cycle_fst {} 2 0 0 (\<lambda>_. []) 3 =
       Some (Inr (\<lparr>t_start = 0, t_states = [(0, \<lparr>final = 0, arcs = []\<rparr>)]\<rparr>, heap cycle_store))"
proof -
  have "Connect tropical (ofst cycle_store) =
      \<lparr>t_start = 0, t_states = [(0, \<lparr>final = 0, arcs = []\<rparr>)]\<rparr>"
    by (simp add: Connect_def cycle_store_def all_states_def accessible_states_def
        coaccessible_states_def forward_step_def backward_step_def arcs_of_def state_at_def
        valid_state_def tropical_def upt_conv_Cons enat_0_iff del: upt.simps)
  then have "ExpandFst tropical rev False cycle_fst {} 2 0 0 (\<lambda>_. []) 3 =
       Some (Inr (\<lparr>t_start = 0, t_states = [(0, \<lparr>final = 0, arcs = []\<rparr>)]\<rparr>, heap cycle_store))"
    by (simp add: ExpandFst_def cycle_expand_search)
  moreover have "is_walk cycle_fst (start cycle_fst) [Arc 1 1 5 1, Arc 2 2 6 0]"
    by (simp add: cycle_fst_def arcs_of_def state_at_def valid_state_def)
  moreover have "match_count False [Arc 1 1 (5::enat) 1, Arc 2 2 6 0] \<le> 2"
    by (simp add: match_count_def match_label_def)
  moreover have "is_final tropical cycle_fst
      (end_state (start cycle_fst) [Arc 1 1 5 1, Arc 2 2 6 0])"
    by (simp add: is_final_def end_state_def cycle_fst_def state_at_def valid_state_def
        tropical_def)
  moreover have "map arcs (states (ofst cycle_store)) = [[], []]"
    by (simp add: cycle_store_def)
  ultimately show ?thesis using cycle_expand_search by blast
qed

lemma path_expand_search:
  "expand_search tropical rev False (chain_fst tropical 5 6 7) {} 10 0 0 (\<lambda>_. []) 4 =
     Some (Inr path_store)"
proof -
  let ?c0 = "\<lparr>stack = [(0, 0, 0::enat, [], [])],
      store = \<lparr>ofst = \<lparr>start = 0,
               states = [\<lparr>final = \<infinity>, arcs = []\<rparr>,
                         \<lparr>final = \<infinity>, arcs = []\<rparr>,
                         \<lparr>final = \<infinity>, arcs = []\<rparr>,
                         \<lparr>final = 0, arcs = []\<rparr>]\<rparr>,
                heap = (\<lambda>_. [])(0 := [([], 0)])\<rparr>\<rparr>"
  have init: "expand_init tropical rev False (chain_fst tropical 5 6 7) {} 0 0 (\<lambda>_. []) =
      Inr ?c0"
    by (simp add: expand_init_def chain_fst_def tropical_def expand_eval
        upt_conv_Cons del: upt.simps)
  have run: "run_steps tropical False (chain_fst tropical 5 6 7) {} 10 0 0 4 ?c0 =
      Inr \<lparr>stack = [], store = path_store\<rparr>"
    by (simp add: numeral_eq_Suc)
       (simp add: chain_fst_def tropical_def expand_eval path_store_def)
  show ?thesis
    by (simp add: expand_search_def init expand_loop_def run)
qed

lemma path_walks:
  "filter (\<lambda>p. match_count False p \<le> size_t_of_int32 10 \<and>
               end_state (start (chain_fst tropical 5 6 7)) p \<noteq> start (chain_fst tropical 5 6 7) \<and>
               is_final tropical (chain_fst tropical 5 6 7)
                 (end_state (start (chain_fst tropical 5 6 7)) p))
     (walks_upto (chain_fst tropical 5 6 7) (start (chain_fst tropical 5 6 7)) 4) =
   [[Arc 1 1 5 1, Arc 2 2 6 2, Arc 3 3 7 3]]"
  by (simp add: numeral_eq_Suc)
     (simp add: chain_fst_def tropical_def arcs_of_def state_at_def valid_state_def
        match_count_def match_label_def end_state_def is_final_def size_t_of_int32_def)

subsection \<open>The trim keeps the arcs from the start state into final states\<close>

lemma set_all_states: "s \<in> set (all_states f) \<longleftrightarrow> valid_state f s"
proof
  assume "s \<in> set (all_states f)"
  then show "valid_state f s" by (auto simp: all_states_def valid_state_def)
next
  assume "valid_state f s"
  then have "nat s < length (states f)" "int (nat s) = s" by (auto simp: valid_state_def)
  then show "s \<in> set (all_states f)"
    unfolding all_states_def by (metis atLeast0LessThan imageI lessThan_iff set_map set_upt)
qed

lemma forward_step_incl: "s \<in> set S \<Longrightarrow> s \<in> set (forward_step f S)"
  by (simp add: forward_step_def)

lemma forward_step_succ:
  "s \<in> set S \<Longrightarrow> a \<in> set (arcs_of f s) \<Longrightarrow> nextstate a \<in> set (forward_step f S)"
  by (auto simp: forward_step_def)

lemma forward_funpow_incl: "s \<in> set S \<Longrightarrow> s \<in> set ((forward_step f ^^ k) S)"
  by (induction k) (simp_all add: forward_step_incl)

lemma forward_funpow_succ:
  assumes "s \<in> set S" and "a \<in> set (arcs_of f s)" and "0 < k"
  shows "nextstate a \<in> set ((forward_step f ^^ k) S)"
proof -
  from assms(3) obtain j where k: "k = Suc j" by (cases k) auto
  from assms(1) have "s \<in> set ((forward_step f ^^ j) S)" by (rule forward_funpow_incl)
  with assms(2) show ?thesis by (simp add: k forward_step_succ)
qed

lemma backward_step_incl:
  "valid_state f s \<Longrightarrow> s \<in> set S \<Longrightarrow> s \<in> set (backward_step f S)"
  by (simp add: backward_step_def set_all_states)

lemma backward_step_pred:
  "valid_state f s \<Longrightarrow> a \<in> set (arcs_of f s) \<Longrightarrow> nextstate a \<in> set S \<Longrightarrow>
     s \<in> set (backward_step f S)"
  by (auto simp: backward_step_def set_all_states list_ex_iff)

lemma backward_funpow_incl:
  "valid_state f s \<Longrightarrow> s \<in> set S \<Longrightarrow> s \<in> set ((backward_step f ^^ k) S)"
  by (induction k) (simp_all add: backward_step_incl)

lemma backward_funpow_pred:
  assumes "valid_state f s" and "a \<in> set (arcs_of f s)" and "valid_state f (nextstate a)"
    and "nextstate a \<in> set S" and "0 < k"
  shows "s \<in> set ((backward_step f ^^ k) S)"
proof -
  from assms(5) obtain j where k: "k = Suc j" by (cases k) auto
  from assms(3,4) have "nextstate a \<in> set ((backward_step f ^^ j) S)"
    by (rule backward_funpow_incl)
  with assms(1,2) show ?thesis by (simp add: k backward_step_pred)
qed

lemma Connect_keeps_start_arcs:
  assumes ne: "arcs_of f (start f) \<noteq> []"
    and fin: "\<forall>a\<in>set (arcs_of f (start f)).
               valid_state f (nextstate a) \<and> final (states f ! nat (nextstate a)) \<noteq> Zero W"
  shows "t_start (Connect W f) = start f \<and>
         (\<exists>fs. (start f, fs) \<in> set (t_states (Connect W f)) \<and> arcs fs = arcs_of f (start f))"
proof -
  let ?q = "start f"
  let ?keep = "filter (\<lambda>s. s \<in> set (accessible_states f) \<and> s \<in> set (coaccessible_states W f))
                 (all_states f)"
  from ne have valid: "valid_state f ?q"
    by (auto simp: arcs_of_def state_at_def split: if_splits)
  then have pos: "0 < length (states f)" by (auto simp: valid_state_def)
  have target: "nextstate a \<in> set ?keep" if "a \<in> set (arcs_of f ?q)" for a
  proof -
    from fin that have v: "valid_state f (nextstate a)"
      and nz: "final (states f ! nat (nextstate a)) \<noteq> Zero W" by auto
    have "nextstate a \<in> set (accessible_states f)"
      unfolding accessible_states_def
      by (rule forward_funpow_succ [OF _ that pos]) simp
    moreover have "nextstate a \<in> set (coaccessible_states W f)"
      unfolding coaccessible_states_def
      by (rule backward_funpow_incl [OF v]) (simp add: set_all_states v nz)
    ultimately show ?thesis using v by (simp add: set_all_states)
  qed
  have start: "?q \<in> set ?keep"
  proof -
    from ne obtain a where a: "a \<in> set (arcs_of f ?q)" by (cases "arcs_of f ?q") auto
    from fin a have v: "valid_state f (nextstate a)"
      and nz: "final (states f ! nat (nextstate a)) \<noteq> Zero W" by auto
    have "?q \<in> set (accessible_states f)"
      unfolding accessible_states_def by (rule forward_funpow_incl) simp
    moreover have "?q \<in> set (coaccessible_states W f)"
      unfolding coaccessible_states_def
      by (rule backward_funpow_pred [OF valid a v _ pos]) (simp add: set_all_states v nz)
    ultimately show ?thesis using valid by (simp add: set_all_states)
  qed
  let ?fs = "(states f ! nat ?q)\<lparr>arcs := filter (\<lambda>a. nextstate a \<in> set ?keep)
                                            (arcs (states f ! nat ?q))\<rparr>"
  have arcs: "arcs (states f ! nat ?q) = arcs_of f ?q"
    using valid by (simp add: arcs_of_def state_at_def)
  have "filter (\<lambda>a. nextstate a \<in> set ?keep) (arcs_of f ?q) = arcs_of f ?q"
    using target by (simp only: filter_id_conv) blast
  then have "arcs ?fs = arcs_of f ?q" by (simp add: arcs)
  moreover have "(?q, ?fs) \<in> set (t_states (Connect W f))"
    using start by (simp only: Connect_def Let_def trimmed_fst.simps set_map) (rule imageI)
  moreover have "t_start (Connect W f) = ?q"
    using start by (simp only: Connect_def Let_def trimmed_fst.simps if_True)
  ultimately show ?thesis by blast
qed

lemma list_all2_left_set:
  "list_all2 R xs ys \<Longrightarrow> x \<in> set xs \<Longrightarrow> \<exists>y\<in>set ys. R x y"
  by (induction rule: list_all2_induct) auto

lemma no_delimiters_trim:
  assumes "\<forall>xs. mset (iter xs) = mset xs"
    and "expand_search W iter mi ifst {} M ip op h n = Some (Inr st)"
  shows "(\<forall>p. is_walk ifst (start ifst) p \<and> match_count mi p \<le> size_t_of_int32 M
              \<longrightarrow> length p < n)
    \<and> list_all2 (\<lambda>a p. arc_of_entry (heap st) ip op a (entry_of_path W (start ifst) p))
         (arcs_of (ofst st) (start ifst))
         (filter (\<lambda>p. match_count mi p \<le> size_t_of_int32 M \<and>
                      end_state (start ifst) p \<noteq> start ifst \<and>
                      is_final W ifst (end_state (start ifst) p))
            (walks_upto ifst (start ifst) n))
    \<and> (\<forall>s. s \<noteq> start ifst \<longrightarrow> arcs_of (ofst st) s = [])
    \<and> (arcs_of (ofst st) (start ifst) \<noteq> [] \<longrightarrow>
         (\<exists>tf fs. ExpandFst W iter mi ifst {} M ip op h n = Some (Inr (tf, heap st)) \<and>
                  t_start tf = start ifst \<and> (start ifst, fs) \<in> set (t_states tf) \<and>
                  arcs fs = arcs_of (ofst st) (start ifst)))"
proof -
  let ?q = "start ifst"
  let ?f = "ofst st"
  note search = no_delimiters_search [OF assms]
  note shape = expand_search_shape [OF assms(2)]
  from search have pairs: "list_all2
      (\<lambda>a p. arc_of_entry (heap st) ip op a (entry_of_path W ?q p)) (arcs_of ?f ?q)
      (filter (\<lambda>p. match_count mi p \<le> size_t_of_int32 M \<and> end_state ?q p \<noteq> ?q \<and>
                   is_final W ifst (end_state ?q p))
         (walks_upto ifst ?q n))"
    by blast
  have trim: "\<exists>tf fs. ExpandFst W iter mi ifst {} M ip op h n = Some (Inr (tf, heap st)) \<and>
                  t_start tf = ?q \<and> (?q, fs) \<in> set (t_states tf) \<and>
                  arcs fs = arcs_of ?f ?q"
    if ne: "arcs_of ?f ?q \<noteq> []"
  proof -
    have fin: "valid_state ?f (nextstate a) \<and> final (states ?f ! nat (nextstate a)) \<noteq> Zero W"
      if "a \<in> set (arcs_of ?f ?q)" for a
    proof -
      from list_all2_left_set [OF pairs that] obtain p where
        "arc_of_entry (heap st) ip op a (entry_of_path W ?q p)"
        "is_final W ifst (end_state ?q p)" by auto
      then have "is_final W ifst (nextstate a)"
        by (simp add: arc_of_entry_def entry_of_path_def)
      then have v: "valid_state ifst (nextstate a)"
        and nz: "final (states ifst ! nat (nextstate a)) \<noteq> Zero W"
        by (auto simp: is_final_def state_at_def split: if_splits)
      from v have lt: "nat (nextstate a) < length (states ifst)"
        by (auto simp: valid_state_def)
      from v shape(2) have "valid_state ?f (nextstate a)" by (simp add: valid_state_def)
      moreover have "final (states ?f ! nat (nextstate a)) = final (states ifst ! nat (nextstate a))"
        using shape(1,2) lt by (metis nth_map)
      ultimately show ?thesis using nz by simp
    qed
    from ne have ne': "arcs_of ?f (start ?f) \<noteq> []" by (simp add: shape(3))
    from fin have fin': "\<forall>a\<in>set (arcs_of ?f (start ?f)).
        valid_state ?f (nextstate a) \<and> final (states ?f ! nat (nextstate a)) \<noteq> Zero W"
      by (simp add: shape(3))
    from Connect_keeps_start_arcs [OF ne' fin'] obtain fs where
      "t_start (Connect W ?f) = ?q" "(?q, fs) \<in> set (t_states (Connect W ?f))"
      "arcs fs = arcs_of ?f ?q"
      by (auto simp: shape(3))
    moreover from assms(2) have "ExpandFst W iter mi ifst {} M ip op h n =
        Some (Inr (Connect W ?f, heap st))"
      by (simp add: ExpandFst_def)
    ultimately show ?thesis by blast
  qed
  from search trim show ?thesis by blast
qed

subsection \<open>The search returns on the inputs the spec admits\<close>

lemma expand_step_Inr:
  assumes "stack c = e # S"
    and "valid_state ifst (fst e)" and "valid_state ifst (fst (snd e))"
    and "length (states (ofst (store c))) = length (states ifst)"
  shows "\<exists>c1. expand_step W mi ifst delim M ip op c = Inr c1"
proof -
  obtain q0 q1 w il ol where e: "e = (q0, q1, w, il, ol)" by (cases e) auto
  from assms(2,4) e have "valid_state (ofst (store c)) q0" by (simp add: valid_state_def)
  then have add: "\<exists>f'. AddArc (ofst (store c)) q0 a = Some f'" for a by (rule AddArc_Some)
  from assms(3) e obtain st1 where st1: "state_at ifst q1 = Some st1"
    by (simp add: state_at_def)
  show ?thesis
  proof (cases "q0 \<noteq> q1 \<and>
      (snd (scan_arcs W mi delim M (q0, q1, w, il, ol) (arcs st1) S False) \<or> final st1 \<noteq> Zero W)")
    case False
    then show ?thesis
      using assms(1) e st1 by (auto simp: expand_step_def split: prod.splits)
  next
    case True
    obtain h1 ilab where i1: "intern_at (heap (store c)) ip il = (h1, ilab)" by fastforce
    obtain h2 olab where i2: "intern_at h1 op ol = (h2, olab)" by fastforce
    from add [of "Arc ilab olab w q1"] obtain f' where
      "AddArc (ofst (store c)) q0 (Arc ilab olab w q1) = Some f'" by blast
    with True i1 i2 show ?thesis
      using assms(1) e st1 by (auto simp: expand_step_def split: prod.splits)
  qed
qed

lemma expand_step_length:
  assumes "stack c = e # S" and "expand_step W mi ifst delim M ip op c = Inr c1"
  shows "length (states (ofst (store c1))) = length (states (ofst (store c)))"
proof -
  from expand_step_extends [where Q = "\<lambda>e. True", OF assms(1) _ assms(2)]
  have "map final (states (ofst (store c1))) = map final (states (ofst (store c)))"
    by (simp add: search_extends_def)
  then show ?thesis by (metis length_map)
qed

lemma run_steps_compose:
  assumes "run_steps W mi ifst delim M ip op k c = Inr c1"
    and "run_steps W mi ifst delim M ip op m c1 = Inr c2"
  shows "run_steps W mi ifst delim M ip op (k + m) c = Inr c2"
  using assms by (simp add: run_steps_add)

lemma run_steps_one:
  assumes "stack c = e # S" and "expand_step W mi ifst delim M ip op c = Inr c1"
  shows "run_steps W mi ifst delim M ip op (Suc 0) c = Inr c1"
  using assms by simp

lemma bounded_entry_pushed:
  assumes closed: "\<forall>s. \<forall>a\<in>set (arcs_of ifst s). valid_state ifst (nextstate a)"
    and "bounded_entry W mi ifst delim M (Suc n) e"
    and "x \<in> set (pushed_entries W mi ifst delim M e)"
  shows "bounded_entry W mi ifst delim M n x"
proof -
  from assms(3) obtain a where a: "a \<in> set (arcs_of ifst (fst (snd e)))"
    "pushable mi delim M e a" and x: "x = extend_entry W e a"
    by (auto simp: pushed_entries_def)
  have "length p < n" if "is_walk ifst (fst (snd x)) p" "traversable W mi delim M x p" for p
  proof -
    from that a x have "is_walk ifst (fst (snd e)) (a # p)" "traversable W mi delim M e (a # p)"
      by (simp_all add: snd_extend_entry)
    with assms(2) have "length (a # p) < Suc n" unfolding bounded_entry_def by blast
    then show ?thesis by simp
  qed
  moreover from closed a have "valid_state ifst (fst (snd x))"
    by (simp add: x snd_extend_entry)
  moreover from assms(2) have "valid_state ifst (fst x)"
    by (simp add: x fst_extend_entry bounded_entry_def)
  ultimately show ?thesis by (simp add: bounded_entry_def)
qed

lemma run_steps_terminates:
  assumes closed: "\<forall>s. \<forall>a\<in>set (arcs_of ifst s). valid_state ifst (nextstate a)"
  shows "\<forall>e\<in>set L. bounded_entry W mi ifst delim M N e \<Longrightarrow> stack c = L @ S \<Longrightarrow>
         length (states (ofst (store c))) = length (states ifst) \<Longrightarrow>
         \<exists>k c'. run_steps W mi ifst delim M ip op k c = Inr c' \<and> stack c' = S \<and>
                length (states (ofst (store c'))) = length (states ifst)"
proof (induction N arbitrary: L S c)
  case 0
  have "L = []"
  proof (rule ccontr)
    assume "L \<noteq> []"
    then have "hd L \<in> set L" by simp
    with 0(1) have "bounded_entry W mi ifst delim M 0 (hd L)" by blast
    then have "length ([]::'a arc list) < 0" unfolding bounded_entry_def
      by (metis is_walk.simps(1) traversable.simps(1))
    then show False by simp
  qed
  with 0 have "run_steps W mi ifst delim M ip op 0 c = Inr c \<and> stack c = S \<and>
      length (states (ofst (store c))) = length (states ifst)" by simp
  then show ?case by blast
next
  case (Suc n)
  from Suc.prems show ?case
  proof (induction L arbitrary: c)
    case Nil
    then have "run_steps W mi ifst delim M ip op 0 c = Inr c \<and> stack c = S \<and>
      length (states (ofst (store c))) = length (states ifst)" by simp
    then show ?case by blast
  next
    case (Cons e L)
    from Cons.prems(1) have be: "bounded_entry W mi ifst delim M (Suc n) e"
      and bL: "\<forall>x\<in>set L. bounded_entry W mi ifst delim M (Suc n) x" by auto
    from Cons.prems(2) have st: "stack c = e # (L @ S)" by simp
    from be have v: "valid_state ifst (fst e)" "valid_state ifst (fst (snd e))"
      by (simp_all add: bounded_entry_def)
    from expand_step_Inr [OF st v Cons.prems(3)] obtain c1 where
      step: "expand_step W mi ifst delim M ip op c = Inr c1" by blast
    obtain q0 q1 w il ol where e: "e = (q0, q1, w, il, ol)" by (cases e) auto
    have st1: "stack c1 = rev (pushed_entries W mi ifst delim M e) @ (L @ S)"
      using expand_step_cases(2) [OF st [unfolded e] step] e by simp
    have len1: "length (states (ofst (store c1))) = length (states ifst)"
      using expand_step_length [OF st step] Cons.prems(3) by simp
    have "\<forall>x\<in>set (rev (pushed_entries W mi ifst delim M e)). bounded_entry W mi ifst delim M n x"
      using bounded_entry_pushed [OF closed be] by simp
    from Suc.IH [OF this st1 len1] obtain k1 c2 where
      run1: "run_steps W mi ifst delim M ip op k1 c1 = Inr c2" and
      st2: "stack c2 = L @ S" and
      len2: "length (states (ofst (store c2))) = length (states ifst)" by blast
    from Cons.IH [OF bL st2 len2] obtain k2 c' where
      run2: "run_steps W mi ifst delim M ip op k2 c2 = Inr c'" and
      fin: "stack c' = S" "length (states (ofst (store c'))) = length (states ifst)" by blast
    have "run_steps W mi ifst delim M ip op (Suc 0 + (k1 + k2)) c = Inr c'"
      by (rule run_steps_compose [OF run_steps_one [OF st step] run_steps_compose [OF run1 run2]])
    with fin show ?case by blast
  qed
qed

lemma valid_fst_closed:
  assumes "valid_fst f"
  shows "\<forall>s. \<forall>a\<in>set (arcs_of f s). valid_state f (nextstate a)"
proof (intro allI ballI)
  fix s a assume a: "a \<in> set (arcs_of f s)"
  then have v: "valid_state f s" using arcs_of_invalid [of f s] by (cases "valid_state f s") auto
  then have "nat s < length (states f)" by (auto simp: valid_state_def)
  then have "states f ! nat s \<in> set (states f)" by (rule nth_mem)
  moreover from a v have "a \<in> set (arcs (states f ! nat s))"
    by (simp add: arcs_of_def state_at_def)
  ultimately show "valid_state f (nextstate a)"
    using assms by (auto simp: valid_fst_def list_all_iff)
qed

lemma traversable_seed:
  "traversable W mi delim M (q, q, One W, [], []) p \<longleftrightarrow>
     (\<forall>a\<in>set p. match_label mi a \<notin> delim) \<and> match_count mi p \<le> size_t_of_int32 M"
  by (cases "p = []") (simp_all add: traversable_iff match_length_def match_count_Nil)

lemma expand_init_seeds:
  assumes "\<forall>xs. mset (iter xs) = mset xs"
    and "expand_init W iter mi ifst delim ip op h = Inr c0"
  shows "set (stack c0) =
           (\<lambda>q. (q, q, One W, [], [])) ` insert (start ifst) (delimiter_targets mi delim ifst)"
    and "length (states (ofst (store c0))) = length (states ifst)"
proof -
  from expand_init_result [of W iter mi ifst delim ip op h] assms(2) obtain seeds where
    stack: "stack c0 = rev (map (\<lambda>s. (s, s, One W, [], [])) (iter seeds))" and
    seeds: "set seeds = insert (start ifst) (delimiter_targets mi delim ifst)" and
    fin: "map final (states (ofst (store c0))) = map final (states ifst)"
    by auto
  from assms(1) have "set (iter seeds) = set seeds" by (metis mset_eq_setD)
  with stack seeds show "set (stack c0) =
           (\<lambda>q. (q, q, One W, [], [])) ` insert (start ifst) (delimiter_targets mi delim ifst)"
    by simp
  from fin show "length (states (ofst (store c0))) = length (states ifst)"
    by (metis length_map)
qed

lemma expand_search_returns:
  assumes perm: "\<forall>xs. mset (iter xs) = mset xs"
    and valid: "valid_fst ifst"
    and bounded: "walks_bounded mi delim M ifst N"
  shows "\<exists>fuel st. expand_search W iter mi ifst delim M ip op h fuel = Some (Inr st)"
proof -
  from expand_init_result [of W iter mi ifst delim ip op h] obtain c0 where
    init: "expand_init W iter mi ifst delim ip op h = Inr c0" by auto
  note c0 = expand_init_seeds [OF perm init]
  note closed = valid_fst_closed [OF valid]
  have "bounded_entry W mi ifst delim M N e" if "e \<in> set (stack c0)" for e
  proof -
    from that c0(1) obtain q where
      q: "q \<in> insert (start ifst) (delimiter_targets mi delim ifst)" and
      e: "e = (q, q, One W, [], [])" by auto
    from q valid closed have "valid_state ifst q"
      by (auto simp: delimiter_targets_def valid_fst_def)
    moreover from bounded q have "\<forall>p. is_walk ifst q p \<and>
        traversable W mi delim M (q, q, One W, [], []) p \<longrightarrow> length p < N"
      unfolding walks_bounded_def traversable_seed by blast
    ultimately show ?thesis by (simp add: bounded_entry_def e)
  qed
  then have "\<forall>e\<in>set (stack c0). bounded_entry W mi ifst delim M N e" by blast
  from run_steps_terminates [OF closed this _ c0(2), of "[]" ip op] obtain k c' where
    "run_steps W mi ifst delim M ip op k c0 = Inr c'" "stack c' = []" by auto
  with init have "expand_search W iter mi ifst delim M ip op h k = Some (Inr (store c'))"
    by (simp add: expand_search_def expand_loop_def)
  then show ?thesis by blast
qed

lemma expand_search_bounded:
  assumes perm: "\<forall>xs. mset (iter xs) = mset xs"
    and "expand_search W iter mi ifst delim M ip op h n = Some (Inr st)"
  shows "walks_bounded mi delim M ifst n"
proof -
  from expand_search_cases [OF assms(2)] obtain c0 c' where
    init: "expand_init W iter mi ifst delim ip op h = Inr c0" and
    run: "run_steps W mi ifst delim M ip op n c0 = Inr c'" and
    empty: "stack c' = []" by blast
  note c0 = expand_init_seeds [OF perm init]
  note b = run_steps_bounded [OF run empty]
  show ?thesis
    unfolding walks_bounded_def
  proof (intro ballI allI impI)
    fix q p
    assume q: "q \<in> insert (start ifst) (delimiter_targets mi delim ifst)"
      and p: "is_walk ifst q p \<and> (\<forall>a\<in>set p. match_label mi a \<notin> delim) \<and>
        match_count mi p \<le> size_t_of_int32 M"
    from q c0(1) have "(q, q, One W, [], []) \<in> set (stack c0)" by blast
    with b p show "length p < n"
      by (auto simp: traversable_seed)
  qed
qed

subsection \<open>The states of the output automaton\<close>

lemma run_steps_shape:
  assumes "expand_init W iter mi ifst delim ip op h = Inr c0"
    and "run_steps W mi ifst delim M ip op k c0 = Inr c"
  shows "map final (states (ofst (store c))) = map final (states ifst)"
    and "length (states (ofst (store c))) = length (states ifst)"
    and "start (ofst (store c)) = start ifst"
proof -
  from expand_init_result [of W iter mi ifst delim ip op h] assms(1)
  have s0: "start (ofst (store c0)) = start ifst"
    and f0: "map final (states (ofst (store c0))) = map final (states ifst)"
    by auto
  have "search_extends (\<lambda>e. True) W mi ifst delim ip op (store c0) (store c)"
    using run_steps_extends [where Q = "\<lambda>e. True", OF _ _ assms(2)] by simp
  then have s1: "start (ofst (store c)) = start (ofst (store c0))"
    and f1: "map final (states (ofst (store c))) = map final (states (ofst (store c0)))"
    by (auto simp: search_extends_def)
  from f0 f1 show fin: "map final (states (ofst (store c))) = map final (states ifst)" by simp
  then show "length (states (ofst (store c))) = length (states ifst)"
    by (metis length_map)
  from s0 s1 show "start (ofst (store c)) = start ifst" by simp
qed

lemma Connect_length: "length (t_states (Connect W f)) \<le> length (states f)"
proof -
  have "length (t_states (Connect W f)) \<le> length (all_states f)"
    by (simp add: Connect_def Let_def)
  then show ?thesis by (simp add: all_states_def)
qed

text \<open>
  C8. The first pass returns a configuration, and in every configuration the loop
  reaches from it, the last one included, the output automaton has one state for each
  state of the source, in the same order and with the same final weight, and the start
  state of the source, so that its trim has at most as many states as the source.
  When the search returns, \<open>ExpandFst\<close> returns the trim of such an automaton. On a
  source automaton that satisfies the preconditions of the spec (arc endpoints are
  states, the walks between delimiters within \<open>max_length\<close> are bounded) the search
  does return.
\<close>

theorem destination_states:
  "\<exists>c0. expand_init W iter mi ifst delim ip op h = Inr c0
     \<and> (\<forall>k c. run_steps W mi ifst delim M ip op k c0 = Inr c \<longrightarrow>
          length (states (ofst (store c))) = length (states ifst)
          \<and> map final (states (ofst (store c))) = map final (states ifst)
          \<and> start (ofst (store c)) = start ifst
          \<and> length (t_states (Connect W (ofst (store c)))) \<le> length (states ifst))
     \<and> (\<forall>fuel st. expand_search W iter mi ifst delim M ip op h fuel = Some (Inr st) \<longrightarrow>
          length (states (ofst st)) = length (states ifst)
          \<and> map final (states (ofst st)) = map final (states ifst)
          \<and> start (ofst st) = start ifst
          \<and> ExpandFst W iter mi ifst delim M ip op h fuel =
              Some (Inr (Connect W (ofst st), heap st))
          \<and> length (t_states (Connect W (ofst st))) \<le> length (states ifst))
     \<and> ((\<forall>xs. mset (iter xs) = mset xs) \<and> valid_fst ifst \<and> walks_bounded mi delim M ifst N
          \<longrightarrow> (\<exists>fuel st. expand_search W iter mi ifst delim M ip op h fuel = Some (Inr st)))"
proof -
  from expand_init_result [of W iter mi ifst delim ip op h] obtain c0 where
    init: "expand_init W iter mi ifst delim ip op h = Inr c0" by auto
  have reach: "length (states (ofst (store c))) = length (states ifst)
          \<and> map final (states (ofst (store c))) = map final (states ifst)
          \<and> start (ofst (store c)) = start ifst
          \<and> length (t_states (Connect W (ofst (store c)))) \<le> length (states ifst)"
    if "run_steps W mi ifst delim M ip op k c0 = Inr c" for k c
    using run_steps_shape [OF init that] Connect_length [of W "ofst (store c)"] by simp
  have ret: "length (states (ofst st)) = length (states ifst)
          \<and> map final (states (ofst st)) = map final (states ifst)
          \<and> start (ofst st) = start ifst
          \<and> ExpandFst W iter mi ifst delim M ip op h fuel =
              Some (Inr (Connect W (ofst st), heap st))
          \<and> length (t_states (Connect W (ofst st))) \<le> length (states ifst)"
    if r: "expand_search W iter mi ifst delim M ip op h fuel = Some (Inr st)" for fuel st
  proof -
    from expand_search_cases [OF r] init obtain c' where
      "run_steps W mi ifst delim M ip op fuel c0 = Inr c'" "store c' = st" by auto
    with reach [of fuel c'] r show ?thesis by (simp add: ExpandFst_def)
  qed
  have prod: "\<exists>fuel st. expand_search W iter mi ifst delim M ip op h fuel = Some (Inr st)"
    if "(\<forall>xs. mset (iter xs) = mset xs) \<and> valid_fst ifst \<and> walks_bounded mi delim M ifst N"
    using that expand_search_returns [of iter ifst mi delim M N W ip op h] by blast
  from init reach ret prod show ?thesis by blast
qed

lemma chain_valid: "valid_fst (chain_fst W w1 w2 w3)"
  by (simp add: valid_fst_def chain_fst_def valid_state_def)

theorem destination_states_witness:
  "(\<exists>fuel st. expand_search tropical rev False (chain_fst tropical 5 6 7) {3} 10 0 0 (\<lambda>_. []) fuel =
       Some (Inr st))
   \<and> expand_search tropical rev False (chain_fst tropical 5 6 7) {3} 10 0 0 (\<lambda>_. []) 4 =
       Some (Inr \<lparr>ofst = chain_ofst tropical 5 6 7, heap = chain_heap\<rparr>)
   \<and> length (states (chain_ofst tropical 5 6 7)) = 4
   \<and> map final (states (chain_ofst tropical 5 6 7)) = [\<infinity>, \<infinity>, \<infinity>, 0]
   \<and> start (chain_ofst tropical 5 6 7) = 0
   \<and> length (t_states (Connect tropical (chain_ofst tropical 5 6 7))) \<le> 4"
proof -
  let ?f = "chain_fst tropical 5 6 7"
  let ?st = "\<lparr>ofst = chain_ofst tropical 5 6 7, heap = chain_heap\<rparr>"
  have perm: "\<forall>xs::int list. mset (rev xs) = mset xs" by simp
  note run = chain_expand_search_tropical
  note bounded = expand_search_bounded [OF perm run]
  from destination_states [of tropical rev False ?f "{3}" 0 0 "\<lambda>_. []" 10 4] have
    ret: "\<forall>fuel st. expand_search tropical rev False ?f {3} 10 0 0 (\<lambda>_. []) fuel = Some (Inr st) \<longrightarrow>
          length (states (ofst st)) = length (states ?f)
          \<and> map final (states (ofst st)) = map final (states ?f)
          \<and> start (ofst st) = start ?f
          \<and> ExpandFst tropical rev False ?f {3} 10 0 0 (\<lambda>_. []) fuel =
              Some (Inr (Connect tropical (ofst st), heap st))
          \<and> length (t_states (Connect tropical (ofst st))) \<le> length (states ?f)" and
    prod: "(\<forall>xs::int list. mset (rev xs) = mset xs) \<and> valid_fst ?f \<and> walks_bounded False {3} 10 ?f 4
          \<longrightarrow> (\<exists>fuel st. expand_search tropical rev False ?f {3} 10 0 0 (\<lambda>_. []) fuel =
                 Some (Inr st))"
    by blast+
  from prod perm chain_valid [of tropical 5 6 7] bounded
  have 1: "\<exists>fuel st. expand_search tropical rev False ?f {3} 10 0 0 (\<lambda>_. []) fuel = Some (Inr st)"
    by blast
  from ret run have "length (states (ofst ?st)) = length (states ?f)
          \<and> map final (states (ofst ?st)) = map final (states ?f)
          \<and> start (ofst ?st) = start ?f
          \<and> length (t_states (Connect tropical (ofst ?st))) \<le> length (states ?f)"
    by blast
  then have 2: "length (states (chain_ofst tropical 5 6 7)) = 4
   \<and> map final (states (chain_ofst tropical 5 6 7)) = [\<infinity>, \<infinity>, \<infinity>, 0]
   \<and> start (chain_ofst tropical 5 6 7) = 0
   \<and> length (t_states (Connect tropical (chain_ofst tropical 5 6 7))) \<le> 4"
    by (simp add: chain_fst_def tropical_def)
  from 1 run 2 show ?thesis by blast
qed

subsection \<open>No delimiters: the walks that become arcs\<close>

text \<open>
  C3, amended. Without delimiters, on a source automaton that satisfies the
  preconditions of the spec (its start state and the end states of its arcs are states,
  and the walks from the start state whose count of non-epsilon labels on the matched
  side is at most \<open>max_length\<close>, read as \<open>size_t\<close>, have fewer than \<open>N\<close> arcs), the search
  returns. Whenever it returns, within \<open>n\<close> iterations: every such walk has fewer than
  \<open>n\<close> arcs; the arcs of the start state in the output automaton correspond one to one,
  in order, to those of these walks that end in a final state other than the start
  state, each arc carrying the ids of the walk's label sequences, the \<open>Times\<close> of its
  weights from \<open>One\<close> in walk order and its end state; no other state has an arc; and the
  trim keeps the start state with all these arcs. A walk that ends in the start state,
  the empty walk included, gives no arc.
\<close>

theorem no_delimiters_paths_become_arcs:
  assumes "\<forall>xs. mset (iter xs) = mset xs"
    and "valid_fst ifst"
    and "\<forall>p. is_walk ifst (start ifst) p \<and> match_count mi p \<le> size_t_of_int32 M
             \<longrightarrow> length p < N"
  shows "(\<exists>n st. expand_search W iter mi ifst {} M ip op h n = Some (Inr st))
    \<and> (\<forall>n st. expand_search W iter mi ifst {} M ip op h n = Some (Inr st) \<longrightarrow>
         (\<forall>p. is_walk ifst (start ifst) p \<and> match_count mi p \<le> size_t_of_int32 M
              \<longrightarrow> length p < n)
         \<and> list_all2 (\<lambda>a p. arc_of_entry (heap st) ip op a (entry_of_path W (start ifst) p))
             (arcs_of (ofst st) (start ifst))
             (filter (\<lambda>p. match_count mi p \<le> size_t_of_int32 M \<and>
                          end_state (start ifst) p \<noteq> start ifst \<and>
                          is_final W ifst (end_state (start ifst) p))
                (walks_upto ifst (start ifst) n))
         \<and> (\<forall>s. s \<noteq> start ifst \<longrightarrow> arcs_of (ofst st) s = [])
         \<and> (arcs_of (ofst st) (start ifst) \<noteq> [] \<longrightarrow>
              (\<exists>tf fs. ExpandFst W iter mi ifst {} M ip op h n = Some (Inr (tf, heap st)) \<and>
                  t_start tf = start ifst \<and> (start ifst, fs) \<in> set (t_states tf) \<and>
                  arcs fs = arcs_of (ofst st) (start ifst))))"
proof -
  from assms(3) have "walks_bounded mi {} M ifst N"
    by (simp add: walks_bounded_def delimiter_targets_empty)
  from expand_search_returns [OF assms(1,2) this]
  have "\<exists>n st. expand_search W iter mi ifst {} M ip op h n = Some (Inr st)" .
  with no_delimiters_trim [OF assms(1)] show ?thesis by blast
qed

theorem no_delimiters_paths_become_arcs_witness:
  "(\<exists>n st. expand_search tropical rev False (chain_fst tropical 5 6 7) {} 10 0 0 (\<lambda>_. []) n =
      Some (Inr st))
   \<and> list_all2 (\<lambda>a p. arc_of_entry (heap path_store) 0 0 a (entry_of_path tropical 0 p))
     [Arc 1 1 18 3] [[Arc 1 1 5 1, Arc 2 2 6 2, Arc 3 3 7 3]]
   \<and> arcs_of (ofst path_store) 3 = []"
proof -
  let ?f = "chain_fst tropical 5 6 7"
  have iter: "\<forall>xs::int list. mset (rev xs) = mset xs" by simp
  have s0: "start ?f = 0" by (simp add: chain_fst_def)
  have a0: "arcs_of (ofst path_store) 0 = [Arc 1 1 18 3]"
    by (simp add: path_store_def arcs_of_def state_at_def valid_state_def)
  have "walks_bounded False {} 10 ?f 4"
    by (rule expand_search_bounded [OF iter path_expand_search])
  then have bounded: "\<forall>p. is_walk ?f (start ?f) p \<and> match_count False p \<le> size_t_of_int32 10
             \<longrightarrow> length p < 4"
    by (simp add: walks_bounded_def delimiter_targets_empty)
  have valid: "valid_fst ?f" by (rule chain_valid)
  note inst = no_delimiters_paths_become_arcs [where W = tropical and ip = 0 and op = 0
      and h = "\<lambda>_. []", OF iter valid bounded]
  from inst have 1: "\<exists>n st. expand_search tropical rev False ?f {} 10 0 0 (\<lambda>_. []) n = Some (Inr st)"
    by blast
  from inst path_expand_search
  have "list_all2 (\<lambda>a p. arc_of_entry (heap path_store) 0 0 a
             (entry_of_path tropical (start ?f) p))
         (arcs_of (ofst path_store) (start ?f))
         (filter (\<lambda>p. match_count False p \<le> size_t_of_int32 10 \<and>
                      end_state (start ?f) p \<noteq> start ?f \<and>
                      is_final tropical ?f (end_state (start ?f) p))
            (walks_upto ?f (start ?f) 4))"
    and "\<forall>s. s \<noteq> start ?f \<longrightarrow> arcs_of (ofst path_store) s = []"
    by blast+
  then have "list_all2 (\<lambda>a p. arc_of_entry (heap path_store) 0 0 a
             (entry_of_path tropical (start ?f) p))
         (arcs_of (ofst path_store) (start ?f))
         [[Arc 1 1 5 1, Arc 2 2 6 2, Arc 3 3 7 3]]"
    and "\<forall>s. s \<noteq> start ?f \<longrightarrow> arcs_of (ofst path_store) s = []"
    unfolding path_walks by blast+
  with 1 show ?thesis by (simp add: s0 a0)
qed

subsection \<open>The result as a function of the inputs\<close>






lemma ExpandFst_fuel_unique:
  assumes "ExpandFst W iter mi ifst delim M ip op h fuel1 = Some r1"
    and "ExpandFst W iter mi ifst delim M ip op h fuel2 = Some r2"
  shows "r1 = r2"
proof (cases "fuel1 \<le> fuel2")
  case True
  then obtain m where "fuel2 = fuel1 + m" using le_Suc_ex by blast
  with ExpandFst_more_fuel [OF assms(1), of m] assms(2) show ?thesis by simp
next
  case False
  then obtain m where "fuel1 = fuel2 + m" using le_Suc_ex nat_le_linear by blast
  with ExpandFst_more_fuel [OF assms(2), of m] assms(1) show ?thesis by simp
qed

lemma fork_word_starts: "word_starts False {9} fork_fst = [0, 1]"
  by (simp add: word_starts_def fork_fst_def seeds_of_arcs_def uset_insert_def match_label_def
      upt_conv_Cons del: upt.simps)


















subsection \<open>The interner tables of the program\<close>


lemma label_of_size_wraps: "label_of_size (2 ^ 31) = - (2 ^ 31)"
  by (simp add: label_of_size_def)


























end
